theory Spec2Isabelle
  imports Main "HOL-Library.Word"
begin

unbundle bit_operations_syntax

section \<open>Data model of attiny-ballast.c\<close>

text \<open>
  The Ushio serial loop of the ballast emulator (\<^verbatim>\<open>ushioLoop\<close> in
  \<^verbatim>\<open>attiny-ballast.c\<close>) is embedded as a function from the state of one loop
  iteration to the state after it. \<^verbatim>\<open>uint8_t\<close> is \<open>8 word\<close>, \<^verbatim>\<open>uint16_t\<close> is
  \<open>16 word\<close>. The two 16-byte buffers are lists; an access outside the list is
  undefined behaviour in C and is the value \<open>None\<close> here.
\<close>

type_synonym u8 = "8 word"
type_synonym u16 = "16 word"

datatype uartState_t = IDLE | START | DATA | PARITY | STOP

record ushioQuery_t =
  qLength :: u8
  qData :: "u8 list"
  rLength :: u8
  rData :: "u8 list"

definition RXPIN :: u8 where
  "RXPIN = 0x01"

definition TXPIN :: u8 where
  "TXPIN = 0x02"

definition SYNCPIN :: u8 where
  "SYNCPIN = 0x04"

definition ID0 :: u8 where
  "ID0 = 0x08"

definition ID1 :: u8 where
  "ID1 = 0x10"

definition PULLUPS :: u8 where
  "PULLUPS = RXPIN OR SYNCPIN OR ID0 OR ID1"

definition UART_RX_TIMEOUT :: u16 where
  "UART_RX_TIMEOUT = 480"

definition UARTRXMASK :: u8 where
  "UARTRXMASK = 0x0F"

definition UARTTXMASK :: u8 where
  "UARTTXMASK = 0x0F"

text \<open>
  The command table. \<^verbatim>\<open>qData\<close> and \<^verbatim>\<open>rData\<close> are arrays of
  \<^verbatim>\<open>USHIO_MAX_COMMAND = 5\<close> bytes; the string initialisers are padded with zeros.
\<close>

definition ushioQuery :: "ushioQuery_t list" where
  "ushioQuery =
    [\<lparr>qLength = 2, qData = [0x51, 0x0D, 0, 0, 0], rLength = 3, rData = [0x51, 0x32, 0x0D, 0, 0]\<rparr>,
     \<lparr>qLength = 3, qData = [0x4C, 0x46, 0x0D, 0, 0], rLength = 2, rData = [0x41, 0x0D, 0, 0, 0]\<rparr>,
     \<lparr>qLength = 2, qData = [0x50, 0x0D, 0, 0, 0], rLength = 3, rData = [0x50, 0x46, 0x0D, 0, 0]\<rparr>,
     \<lparr>qLength = 2, qData = [0x51, 0x0D, 0, 0, 0], rLength = 3, rData = [0x51, 0x32, 0x0D, 0, 0]\<rparr>,
     \<lparr>qLength = 3, qData = [0x4C, 0x45, 0x0D, 0, 0], rLength = 2, rData = [0x41, 0x0D, 0, 0, 0]\<rparr>]"

text \<open>
  The globals (\<^verbatim>\<open>uartRxBuffer\<close>, \<^verbatim>\<open>uartRxWrite\<close>, ...), the locals of
  \<^verbatim>\<open>ushioLoop\<close> that live across iterations, and the output register
  \<^verbatim>\<open>PORTB\<close>. The locals \<^verbatim>\<open>i\<close>, \<^verbatim>\<open>j\<close> and \<^verbatim>\<open>failed\<close> are written before
  they are read in every iteration and are not part of the state.
\<close>

record ushio =
  PORTB :: u8
  rxLastBit :: u8
  rxBit :: u8
  uartRxState :: uartState_t
  rxParity :: u8
  rxTick :: u8
  readBit :: u8
  txBit :: u8
  uartTxState :: uartState_t
  txParity :: u8
  txTick :: u8
  writeBit :: u8
  rxTimeout :: u16
  uartRxBuffer :: "u8 list"
  uartRxWrite :: u8
  uartRxRead :: u8
  uartTxBuffer :: "u8 list"
  uartTxWrite :: u8
  uartTxRead :: u8

text \<open>
  The state on entry to \<^verbatim>\<open>ushioLoop\<close>: the initialisers of the globals and of the
  locals; \<^verbatim>\<open>main\<close> leaves \<^verbatim>\<open>PORTB = PULLUPS\<close>.
\<close>

definition ushioInit :: ushio where
  "ushioInit =
    \<lparr>PORTB = PULLUPS,
     rxLastBit = 0, rxBit = 0, uartRxState = IDLE, rxParity = 0, rxTick = 0, readBit = 1,
     txBit = 1, uartTxState = IDLE, txParity = 0, txTick = 0, writeBit = 1,
     rxTimeout = 0,
     uartRxBuffer = replicate 16 0, uartRxWrite = 0, uartRxRead = 0,
     uartTxBuffer = [0x51, 0x32, 0x0D, 0x00, 0x00] @ replicate 11 0,
     uartTxWrite = 0, uartTxRead = 0\<rparr>"

section \<open>Array accesses\<close>

definition arrayRead :: "'a list \<Rightarrow> nat \<Rightarrow> 'a option" where
  "arrayRead xs i = (if i < length xs then Some (xs ! i) else None)"

definition arrayWrite :: "'a list \<Rightarrow> nat \<Rightarrow> 'a \<Rightarrow> 'a list option" where
  "arrayWrite xs i v = (if i < length xs then Some (xs[i := v]) else None)"

section \<open>One iteration of the loop, part by part\<close>

text \<open>Lines 140-141: \<^verbatim>\<open>rxLastBit = rxBit; rxBit = PINB & RXPIN;\<close>\<close>

definition sample :: "u8 \<Rightarrow> ushio \<Rightarrow> ushio" where
  "sample pinb s = s\<lparr>rxLastBit := rxBit s, rxBit := pinb AND RXPIN\<rparr>"

text \<open>Lines 150-153: the level of \<^verbatim>\<open>txBit\<close> is written to the TX pin.\<close>

definition drive :: "ushio \<Rightarrow> ushio" where
  "drive s =
    (if txBit s \<noteq> 0 then s\<lparr>PORTB := PORTB s OR TXPIN\<rparr>
     else s\<lparr>PORTB := PORTB s AND NOT TXPIN\<rparr>)"

text \<open>Lines 157-159: the three countdowns, one statement each.\<close>

definition rxTimer :: "ushio \<Rightarrow> ushio" where
  "rxTimer s = (if rxTick s \<noteq> 0 then s\<lparr>rxTick := rxTick s - 1\<rparr> else s)"

definition txTimer :: "ushio \<Rightarrow> ushio" where
  "txTimer s = (if txTick s \<noteq> 0 then s\<lparr>txTick := txTick s - 1\<rparr> else s)"

definition timeoutTimer :: "ushio \<Rightarrow> ushio" where
  "timeoutTimer s = (if rxTimeout s \<noteq> 0 then s\<lparr>rxTimeout := rxTimeout s - 1\<rparr> else s)"

definition timers :: "ushio \<Rightarrow> ushio" where
  "timers s = timeoutTimer (txTimer (rxTimer s))"

text \<open>Lines 162-211: the receive framer.\<close>

definition rxFramer :: "ushio \<Rightarrow> ushio option" where
  "rxFramer s =
    (if rxTick s = 0 then
       (if uartRxState s = IDLE \<and> rxBit s = 0 \<and> rxLastBit s = 1 then
          Some (s\<lparr>uartRxState := START, rxTick := 1\<rparr>)
        else if uartRxState s = START then
          (if rxBit s = 0 then
             (case arrayWrite (uartRxBuffer s) (unat (uartRxWrite s)) 0 of
                None \<Rightarrow> None
              | Some buf \<Rightarrow>
                  Some (s\<lparr>rxParity := 0, readBit := 1, uartRxState := DATA,
                          uartRxBuffer := buf, rxTick := 4,
                          rxTimeout := (if rxTimeout s = 0 then UART_RX_TIMEOUT else rxTimeout s)\<rparr>))
           else Some (s\<lparr>uartRxState := IDLE, rxTick := 0\<rparr>))
        else if uartRxState s = DATA then
          (case (if rxBit s \<noteq> 0 then
                   (case arrayRead (uartRxBuffer s) (unat (uartRxWrite s)) of
                      None \<Rightarrow> None
                    | Some b \<Rightarrow>
                       (case arrayWrite (uartRxBuffer s) (unat (uartRxWrite s)) (b OR readBit s) of
                          None \<Rightarrow> None
                        | Some buf \<Rightarrow> Some (s\<lparr>uartRxBuffer := buf, rxParity := rxParity s XOR 1\<rparr>)))
                 else Some s) of
             None \<Rightarrow> None
           | Some s1 \<Rightarrow>
               (let s2 = s1\<lparr>readBit := push_bit 1 (readBit s1)\<rparr>;
                    s3 = (if readBit s2 = 0 then
                            s2\<lparr>uartRxState := PARITY,
                               uartRxWrite := (uartRxWrite s2 + 1) AND UARTRXMASK\<rparr>
                          else s2)
                in Some (s3\<lparr>rxTick := 4\<rparr>)))
        else if uartRxState s = PARITY then
          Some (s\<lparr>uartRxState := STOP, rxTick := 4\<rparr>)
        else
          Some (s\<lparr>uartRxState := IDLE, rxTick := 0\<rparr>))
     else Some s)"

text \<open>Lines 214-245: the transmit framer.\<close>

definition txFramer :: "ushio \<Rightarrow> ushio option" where
  "txFramer s =
    (if txTick s = 0 then
       (let s0 = s\<lparr>txTick := 4\<rparr> in
        if uartTxState s0 = START then
          Some (s0\<lparr>txBit := 0, writeBit := 1, txParity := 0, uartTxState := DATA\<rparr>)
        else if uartTxState s0 = DATA then
          (case arrayRead (uartTxBuffer s0) (unat (uartTxRead s0)) of
             None \<Rightarrow> None
           | Some b \<Rightarrow>
               (let s1 = (if b AND writeBit s0 \<noteq> 0
                          then s0\<lparr>txBit := 1, txParity := txParity s0 XOR 1\<rparr>
                          else s0\<lparr>txBit := 0\<rparr>);
                    s2 = s1\<lparr>writeBit := push_bit 1 (writeBit s1)\<rparr>
                in Some (if writeBit s2 = 0 then
                           s2\<lparr>uartTxState := PARITY,
                              uartTxRead := (uartTxRead s2 + 1) AND UARTTXMASK\<rparr>
                         else s2)))
        else if uartTxState s0 = PARITY then
          Some (s0\<lparr>txBit := txParity s0, uartTxState := STOP\<rparr>)
        else
          Some (s0\<lparr>txBit := 1, uartTxState := IDLE\<rparr>))
     else Some s)"

text \<open>Lines 248-257: start the next byte, or reset the drained transmit queue.\<close>

definition txSchedule :: "ushio \<Rightarrow> ushio" where
  "txSchedule s =
    (if uartTxState s = IDLE then
       (if uartTxRead s < uartTxWrite s then s\<lparr>uartTxState := START\<rparr>
        else s\<lparr>uartTxRead := 0, uartTxWrite := 0\<rparr>)
     else s)"

text \<open>
  Lines 269-274: the comparison of the received bytes with one query. The counter
  \<^verbatim>\<open>j\<close> stays below \<^verbatim>\<open>qLength\<close>, so it never wraps and is a \<open>nat\<close> here. The
  result is the new value of \<^verbatim>\<open>failed\<close>.
\<close>

function compareLoop :: "u8 list \<Rightarrow> ushioQuery_t \<Rightarrow> nat \<Rightarrow> u8 \<Rightarrow> u8 option" where
  "compareLoop buf q j failed =
    (if j < unat (qLength q) then
       (case arrayRead buf j of
          None \<Rightarrow> None
        | Some a \<Rightarrow>
           (case arrayRead (qData q) j of
              None \<Rightarrow> None
            | Some b \<Rightarrow>
               if a \<noteq> b then Some (failed OR 0x01)
               else compareLoop buf q (j + 1) failed))
     else Some failed)"
  by pat_completeness auto
termination
  by (relation "measure (\<lambda>(buf, q, j, failed). unat (qLength q) - j)") auto

text \<open>
  Lines 281-284: \<^verbatim>\<open>uartTxBuffer[uartTxWrite++] = ushioQuery[i].rData[j]\<close> for
  \<^verbatim>\<open>j\<close> below \<^verbatim>\<open>rLength\<close>. The result is the buffer and the write cursor.
\<close>

function appendLoop :: "ushioQuery_t \<Rightarrow> nat \<Rightarrow> u8 list \<times> u8 \<Rightarrow> (u8 list \<times> u8) option" where
  "appendLoop q j bw =
    (if j < unat (rLength q) then
       (case arrayRead (rData q) j of
          None \<Rightarrow> None
        | Some v \<Rightarrow>
           (case arrayWrite (fst bw) (unat (snd bw)) v of
              None \<Rightarrow> None
            | Some buf \<Rightarrow> appendLoop q (j + 1) (buf, snd bw + 1)))
     else Some bw)"
  by pat_completeness auto
termination
  by (relation "measure (\<lambda>(q, j, bw). unat (rLength q) - j)") auto

text \<open>
  Lines 265-297: the scan of the table, entry after entry; a match ends it
  (\<^verbatim>\<open>break\<close>). The sum \<^verbatim>\<open>uartTxWrite + rLength\<close> is computed in \<^verbatim>\<open>int\<close>.
  The result is the state and the final value of \<^verbatim>\<open>failed\<close>.
\<close>

fun queryLoop :: "ushioQuery_t list \<Rightarrow> ushio \<Rightarrow> u8 \<Rightarrow> (ushio \<times> u8) option" where
  "queryLoop [] s failed = Some (s, failed)"
| "queryLoop (q # qs) s failed =
    (let failed1 = failed AND 0xFE in
     if uartRxWrite s \<ge> qLength q then
       (case compareLoop (uartRxBuffer s) q 0 failed1 of
          None \<Rightarrow> None
        | Some failed2 \<Rightarrow>
            if failed2 AND 0x01 = 0 then
              (case (if unat UARTTXMASK > unat (uartTxWrite s) + unat (rLength q)
                     then appendLoop q 0 (uartTxBuffer s, uartTxWrite s)
                     else Some (uartTxBuffer s, uartTxWrite s)) of
                 None \<Rightarrow> None
               | Some bw \<Rightarrow> Some (s\<lparr>uartTxBuffer := fst bw, uartTxWrite := snd bw\<rparr>, 0))
            else queryLoop qs s failed2)
     else queryLoop qs s (failed1 OR 0x02))"

text \<open>Lines 260-307: the protocol matcher, over a table.\<close>

definition matcherOn :: "ushioQuery_t list \<Rightarrow> ushio \<Rightarrow> ushio option" where
  "matcherOn tbl s =
    (if uartRxState s = IDLE \<and> uartRxWrite s > 0 then
       (case queryLoop tbl s 0 of
          None \<Rightarrow> None
        | Some (s1, failed) \<Rightarrow>
            if failed = 0 \<or> failed AND 0x02 = 0 \<or> rxTimeout s1 = 0
            then Some (s1\<lparr>uartRxWrite := 0, uartRxRead := 0, rxTimeout := 0\<rparr>)
            else Some s1)
     else Some s)"

definition matcher :: "ushio \<Rightarrow> ushio option" where
  "matcher s = matcherOn ushioQuery s"

text \<open>
  Lines 136-307: one iteration of \<^verbatim>\<open>while(1)\<close>, once the timer flag is seen;
  \<open>pinb\<close> is the value read from \<^verbatim>\<open>PINB\<close>.
\<close>

definition ushioStep :: "u8 \<Rightarrow> ushio \<Rightarrow> ushio option" where
  "ushioStep pinb s =
    (case rxFramer (timers (drive (sample pinb s))) of
       None \<Rightarrow> None
     | Some s1 \<Rightarrow>
        (case txFramer s1 of
           None \<Rightarrow> None
         | Some s2 \<Rightarrow> matcher (txSchedule s2)))"

text \<open>
  Lines 136-257: the part of the iteration that runs before the matcher. Its result is the
  state in which the loop reaches line 260.
\<close>

definition beforeMatcher :: "u8 \<Rightarrow> ushio \<Rightarrow> ushio option" where
  "beforeMatcher pinb s =
    (case rxFramer (timers (drive (sample pinb s))) of
       None \<Rightarrow> None
     | Some s1 \<Rightarrow>
        (case txFramer s1 of
           None \<Rightarrow> None
         | Some s2 \<Rightarrow> Some (txSchedule s2)))"

text \<open>The loop over a sequence of values of \<^verbatim>\<open>PINB\<close>, one per tick.\<close>

fun ushioRun :: "u8 list \<Rightarrow> ushio \<Rightarrow> ushio option" where
  "ushioRun [] s = Some s"
| "ushioRun (p # ps) s =
    (case ushioStep p s of None \<Rightarrow> None | Some s1 \<Rightarrow> ushioRun ps s1)"

section \<open>The two halves of an iteration\<close>

text \<open>
  The receive half of an iteration: the statements of the loop body that read or write
  the receive side (lines 140-141, 157, 159, 162-211), in their order.
\<close>

definition rxStep :: "u8 \<Rightarrow> ushio \<Rightarrow> ushio option" where
  "rxStep pinb s = rxFramer (timeoutTimer (rxTimer (sample pinb s)))"

fun rxRun :: "u8 list \<Rightarrow> ushio \<Rightarrow> ushio option" where
  "rxRun [] s = Some s"
| "rxRun (p # ps) s =
    (case rxStep p s of None \<Rightarrow> None | Some s1 \<Rightarrow> rxRun ps s1)"

text \<open>
  The transmit half: lines 150-153, 158, 214-257. \<open>txRun n\<close> runs it for \<open>n\<close>
  ticks and collects the value of \<^verbatim>\<open>PORTB\<close> that each tick leaves on the pins.
\<close>

definition txStep :: "ushio \<Rightarrow> ushio option" where
  "txStep s =
    (case txFramer (txTimer (drive s)) of
       None \<Rightarrow> None
     | Some s1 \<Rightarrow> Some (txSchedule s1))"

fun txRun :: "nat \<Rightarrow> ushio \<Rightarrow> (u8 list \<times> ushio) option" where
  "txRun 0 s = Some ([], s)"
| "txRun (Suc n) s =
    (case txStep s of
       None \<Rightarrow> None
     | Some s1 \<Rightarrow>
        (case txRun n s1 of
           None \<Rightarrow> None
         | Some r \<Rightarrow> Some (PORTB s1 # fst r, snd r)))"

text \<open>The level of the TX pin in a value of \<^verbatim>\<open>PORTB\<close>, and of the RX pin in a
  value of \<^verbatim>\<open>PINB\<close>.\<close>

definition txLevel :: "u8 \<Rightarrow> bool" where
  "txLevel portb = (portb AND TXPIN \<noteq> 0)"

definition rxLevel :: "u8 \<Rightarrow> bool" where
  "rxLevel pinb = (pinb AND RXPIN \<noteq> 0)"

text \<open>A value of \<^verbatim>\<open>PINB\<close> with the RX pin at a level (the other pins low), and
  the serial line from the TX pin of one device to the RX pin of another.\<close>

definition pinLevel :: "bool \<Rightarrow> u8" where
  "pinLevel l = (if l then RXPIN else 0)"


section \<open>What a run of the loop commits and drives\<close>




section \<open>The words of the specification\<close>

text \<open>The bytes in the receive queue: the slots below the write cursor.\<close>

definition rxQueue :: "ushio \<Rightarrow> u8 list" where
  "rxQueue s = take (unat (uartRxWrite s)) (uartRxBuffer s)"

text \<open>The bytes of the transmit queue that await serialization: the slots from the
  read cursor up to the write cursor.\<close>

definition txPending :: "ushio \<Rightarrow> u8 list" where
  "txPending s = drop (unat (uartTxRead s)) (take (unat (uartTxWrite s)) (uartTxBuffer s))"

text \<open>The command and the reply of a table entry, by their explicit lengths.\<close>

definition command :: "ushioQuery_t \<Rightarrow> u8 list" where
  "command q = take (unat (qLength q)) (qData q)"

definition reply :: "ushioQuery_t \<Rightarrow> u8 list" where
  "reply q = take (unat (rLength q)) (rData q)"

text \<open>An entry matches when its whole command is a prefix of the received bytes.\<close>

definition entryMatches :: "ushio \<Rightarrow> ushioQuery_t \<Rightarrow> bool" where
  "entryMatches s q =
    (qLength q \<le> uartRxWrite s \<and>
     take (unat (qLength q)) (uartRxBuffer s) = command q)"

text \<open>An entry needs more bytes than are buffered.\<close>

definition needsMore :: "ushio \<Rightarrow> ushioQuery_t \<Rightarrow> bool" where
  "needsMore s q = (uartRxWrite s < qLength q)"

text \<open>The guard of line 280: the transmit queue has room for the reply.\<close>

definition hasRoom :: "ushio \<Rightarrow> ushioQuery_t \<Rightarrow> bool" where
  "hasRoom s q = (unat (uartTxWrite s) + unat (rLength q) < 15)"

text \<open>The transmit buffer with a reply stored from the write cursor on.\<close>

definition appended :: "ushio \<Rightarrow> u8 list \<Rightarrow> u8 list" where
  "appended s r =
    take (unat (uartTxWrite s)) (uartTxBuffer s) @ r @
    drop (unat (uartTxWrite s) + length r) (uartTxBuffer s)"

text \<open>An entry of the table as the C type has it: both arrays have
  \<^verbatim>\<open>USHIO_MAX_COMMAND\<close> bytes and the lengths stay within them.\<close>

definition entryOk :: "ushioQuery_t \<Rightarrow> bool" where
  "entryOk q =
    (length (qData q) = 5 \<and> length (rData q) = 5 \<and>
     unat (qLength q) \<le> 5 \<and> unat (rLength q) \<le> 5)"

text \<open>The command/reply table of the specification (section 6), the four distinct
  commands.\<close>

definition listedCommands :: "(u8 list \<times> u8 list) list" where
  "listedCommands =
    [([0x51, 0x0D], [0x51, 0x32, 0x0D]),
     ([0x4C, 0x46, 0x0D], [0x41, 0x0D]),
     ([0x50, 0x0D], [0x50, 0x46, 0x0D]),
     ([0x4C, 0x45, 0x0D], [0x41, 0x0D])]"

text \<open>The XOR-reduction of the eight data bits of a byte.\<close>

definition xorReduce :: "u8 \<Rightarrow> bool" where
  "xorReduce v = foldl (\<noteq>) False (map (bit v) [0..<8])"

text \<open>The wire format (section 6) at four ticks per bit: start bit low, eight data
  bits from the least significant, the even-parity bit, stop bit high.\<close>

definition frame :: "u8 \<Rightarrow> bool list" where
  "frame v =
    replicate 4 False @
    concat (map (\<lambda>i. replicate 4 (bit v i)) [0..<8]) @
    replicate 4 (xorReduce v) @
    replicate 4 True"

text \<open>The levels of the data bits from bit \<open>k\<close> on, and the parity of these bits
  on top of a parity \<open>c\<close> so far: the parts of \<open>frame\<close> and \<open>xorReduce\<close>
  that remain after \<open>k\<close> bits.\<close>

definition dataLevels :: "u8 \<Rightarrow> nat \<Rightarrow> bool list" where
  "dataLevels v k = concat (map (\<lambda>i. replicate 4 (bit v i)) [k..<8])"

definition parityFrom :: "bool \<Rightarrow> u8 \<Rightarrow> nat \<Rightarrow> bool" where
  "parityFrom c v k = foldl (\<noteq>) c (map (bit v) [k..<8])"

text \<open>
  The command 51 0D five times in a row on the RX pin, after a tick of the line at rest.
  \<open>fifthQuery\<close> is the state in which the loop, started at power-on, reaches the
  matcher in the tick that ends the fifth command (the stop bit of its last byte).
\<close>

definition fiveQueries :: "u8 list" where
  "fiveQueries = map pinLevel (True # concat (replicate 5 (frame 0x51 @ frame 0x0D)))"

definition fifthQuery :: ushio where
  "fifthQuery =
    \<lparr>PORTB = 0x1F,
     rxLastBit = 1, rxBit = 1, uartRxState = IDLE, rxParity = 1, rxTick = 0, readBit = 0,
     txBit = 1, uartTxState = START, txParity = 1, txTick = 2, writeBit = 0,
     rxTimeout = 396,
     uartRxBuffer = [0x51, 0x0D] @ replicate 14 0, uartRxWrite = 2, uartRxRead = 0,
     uartTxBuffer =
       [0x51, 0x32, 0x0D, 0x51, 0x32, 0x0D, 0x51, 0x32, 0x0D, 0x51, 0x32, 0x0D, 0, 0, 0, 0],
     uartTxWrite = 12, uartTxRead = 8\<rparr>"

section \<open>The variables of each framer\<close>

text \<open>The variables that the transmit half reads, and those that the receive half
  reads (the receive half never reads \<^verbatim>\<open>rxParity\<close>, \<^verbatim>\<open>rxTimeout\<close> or
  \<^verbatim>\<open>uartRxRead\<close>).\<close>

definition txView :: "ushio \<Rightarrow> uartState_t \<times> u8 \<times> u8 \<times> u8 \<times> u8 \<times> u8 list \<times> u8 \<times> u8" where
  "txView s =
    (uartTxState s, txTick s, txBit s, txParity s, writeBit s,
     uartTxBuffer s, uartTxRead s, uartTxWrite s)"

definition rxView :: "ushio \<Rightarrow> uartState_t \<times> u8 \<times> u8 \<times> u8 \<times> u8 list \<times> u8" where
  "rxView s =
    (uartRxState s, rxTick s, rxBit s, readBit s, uartRxBuffer s, uartRxWrite s)"

text \<open>Both framers at rest with empty queues and the TX line held high.\<close>

definition quiet :: "ushio \<Rightarrow> bool" where
  "quiet s =
    (uartTxState s = IDLE \<and> txBit s = 1 \<and> uartTxRead s = 0 \<and> uartTxWrite s = 0 \<and>
     uartRxState s = IDLE \<and> rxTick s = 0 \<and> uartRxWrite s = 0)"

text \<open>The two buffers as the program declares them, 16 bytes each, and the two cursors
  that the framers mask (lines 196 and 236) within them.\<close>

definition sane :: "ushio \<Rightarrow> bool" where
  "sane s =
    (length (uartRxBuffer s) = 16 \<and> length (uartTxBuffer s) = 16 \<and>
     unat (uartRxWrite s) < 16 \<and> unat (uartTxRead s) < 16)"


section \<open>The loops of the matcher\<close>

declare compareLoop.simps [simp del] appendLoop.simps [simp del]

text \<open>The comparison loop reports a mismatch exactly when the command of the entry is
  not a prefix of the buffer.\<close>

lemma compareLoop_eq:
  "unat (qLength q) \<le> length buf \<Longrightarrow> unat (qLength q) \<le> length (qData q) \<Longrightarrow>
   j \<le> unat (qLength q) \<Longrightarrow>
   compareLoop buf q j f =
     Some (if drop j (take (unat (qLength q)) buf) = drop j (take (unat (qLength q)) (qData q))
           then f else f OR 0x01)"
proof (induction buf q j f rule: compareLoop.induct)
  case (1 buf q j failed)
  let ?n = "unat (qLength q)"
  show ?case
  proof (cases "j < ?n")
    case False
    with "1.prems" have j: "j = ?n" by simp
    have "compareLoop buf q j failed = Some failed"
      using False by (subst compareLoop.simps) simp
    then show ?thesis using j by simp
  next
    case True
    have a: "drop j (take ?n buf) = buf ! j # drop (Suc j) (take ?n buf)"
      using True "1.prems" by (simp add: Cons_nth_drop_Suc [symmetric])
    have b: "drop j (take ?n (qData q)) = qData q ! j # drop (Suc j) (take ?n (qData q))"
      using True "1.prems" by (simp add: Cons_nth_drop_Suc [symmetric])
    have rd: "arrayRead buf j = Some (buf ! j)" "arrayRead (qData q) j = Some (qData q ! j)"
      using True "1.prems" by (simp_all add: arrayRead_def)
    show ?thesis
    proof (cases "buf ! j = qData q ! j")
      case False
      then show ?thesis
        using True rd a b by (simp add: compareLoop.simps [of buf q j failed])
    next
      case same: True
      have "compareLoop buf q (j + 1) failed =
        Some (if drop (j + 1) (take ?n buf) = drop (j + 1) (take ?n (qData q))
              then failed else failed OR 0x01)"
        using "1.IH" [OF True rd(1) rd(2)] same True "1.prems" by simp
      then show ?thesis
        using True rd a b same by (simp add: compareLoop.simps [of buf q j failed])
    qed
  qed
qed

lemma appendLoop_eq:
  "j \<le> unat (rLength q) \<Longrightarrow> unat (rLength q) \<le> length (rData q) \<Longrightarrow>
   length (fst bw) = 16 \<Longrightarrow> unat (snd bw) + (unat (rLength q) - j) \<le> 16 \<Longrightarrow>
   appendLoop q j bw =
     Some (take (unat (snd bw)) (fst bw) @ drop j (take (unat (rLength q)) (rData q)) @
             drop (unat (snd bw) + (unat (rLength q) - j)) (fst bw),
           snd bw + of_nat (unat (rLength q) - j))"
proof (induction q j bw rule: appendLoop.induct)
  case (1 q j bw)
  let ?n = "unat (rLength q)"
  obtain buf w where bw: "bw = (buf, w)" by (cases bw)
  show ?case
  proof (cases "j < ?n")
    case False
    with "1.prems" have j: "j = ?n" by simp
    have "appendLoop q j bw = Some bw"
      using False by (subst appendLoop.simps) simp
    then show ?thesis using j "1.prems" by simp
  next
    case True
    have b: "drop j (take ?n (rData q)) = rData q ! j # drop (Suc j) (take ?n (rData q))"
      using True "1.prems" by (simp add: Cons_nth_drop_Suc [symmetric])
    have rd: "arrayRead (rData q) j = Some (rData q ! j)"
      using True "1.prems" by (simp add: arrayRead_def)
    have wlt: "unat w < 16" using True "1.prems" bw by simp
    have wr: "arrayWrite (fst bw) (unat (snd bw)) (rData q ! j) = Some (buf[unat w := rData q ! j])"
      using wlt "1.prems" bw by (simp add: arrayWrite_def)
    have w1: "unat (w + 1) = unat w + 1"
      using wlt by (simp add: unat_word_ariths)
    have step: "appendLoop q (j + 1) (buf[unat w := rData q ! j], snd bw + 1) =
       Some (take (unat (w + 1)) (buf[unat w := rData q ! j]) @ drop (j + 1) (take ?n (rData q)) @
             drop (unat (w + 1) + (?n - (j + 1))) (buf[unat w := rData q ! j]),
           w + 1 + of_nat (?n - (j + 1)))"
      using "1.IH" [OF True rd wr] True "1.prems" bw w1 by simp
    have l: "take (unat w + 1) (buf[unat w := rData q ! j]) = take (unat w) buf @ [rData q ! j]"
      using wlt "1.prems" bw by (simp add: take_Suc_conv_app_nth)
    have r: "drop (unat w + 1 + (?n - (j + 1))) (buf[unat w := rData q ! j]) = drop (unat w + (?n - j)) buf"
    proof -
      have "unat w + 1 + (?n - (j + 1)) = unat w + (?n - j)" using True by arith
      moreover have "unat w < unat w + (?n - j)" using True by arith
      ultimately show ?thesis by (simp only: drop_update_cancel)
    qed
    have e: "w + 1 + of_nat (?n - (j + 1)) = w + of_nat (?n - j)"
    proof -
      have "?n - j = Suc (?n - (j + 1))" using True by simp
      then show ?thesis by simp
    qed
    have "appendLoop q j bw = appendLoop q (j + 1) (buf[unat w := rData q ! j], snd bw + 1)"
      using True rd wr by (subst appendLoop.simps) simp
    then show ?thesis
      using step b l r e w1 bw by simp
  qed
qed

text \<open>The two low bits of \<^verbatim>\<open>failed\<close>.\<close>

lemma failed_bit0_clear: "((f :: u8) AND 0xFE) AND 0x01 = 0"
  by (simp add: and.assoc)

lemma failed_bit0_set: "((g :: u8) OR 0x01) AND 0x01 \<noteq> 0"
  by (simp add: bit.conj_disj_distrib2)

lemma failed_bit1_keep: "((f :: u8) AND 0xFE) AND 0x02 = f AND 0x02"
  by (simp add: and.assoc)

lemma failed_bit1_or1: "((g :: u8) OR 0x01) AND 0x02 = g AND 0x02"
  by (simp add: bit.conj_disj_distrib2)

lemma failed_bit1_set: "((g :: u8) OR 0x02) AND 0x02 \<noteq> 0"
  by (simp add: bit.conj_disj_distrib2)

lemma compareLoop_entry:
  assumes "entryOk q" "length (uartRxBuffer s) = 16" "qLength q \<le> uartRxWrite s"
  shows "compareLoop (uartRxBuffer s) q 0 f = Some (if entryMatches s q then f else f OR 0x01)"
  using assms compareLoop_eq [of q "uartRxBuffer s" 0 f]
  by (simp add: entryOk_def entryMatches_def command_def)

lemma queryLoop_skip:
  assumes "entryOk p" "\<not> entryMatches s p" "length (uartRxBuffer s) = 16"
  shows "queryLoop (p # qs) s f =
    queryLoop qs s (if needsMore s p then (f AND 0xFE) OR 0x02 else (f AND 0xFE) OR 0x01)"
proof (cases "qLength p \<le> uartRxWrite s")
  case True
  then have "\<not> needsMore s p" by (simp add: needsMore_def not_less)
  then show ?thesis
    using True assms compareLoop_entry [OF assms(1) assms(3) True, of "f AND 0xFE"]
    by (simp add: failed_bit0_set)
next
  case False
  then have "needsMore s p" by (simp add: needsMore_def not_le)
  then show ?thesis using False by simp
qed

lemma queryLoop_hit:
  assumes "entryOk q" "entryMatches s q" "length (uartRxBuffer s) = 16"
    "length (uartTxBuffer s) = 16"
  shows "queryLoop (q # qs) s f =
    Some (s\<lparr>uartTxBuffer := (if hasRoom s q then appended s (reply q) else uartTxBuffer s),
            uartTxWrite := (if hasRoom s q then uartTxWrite s + rLength q else uartTxWrite s)\<rparr>, 0)"
proof -
  have le: "qLength q \<le> uartRxWrite s" using assms(2) by (simp add: entryMatches_def)
  have cmp: "compareLoop (uartRxBuffer s) q 0 (f AND 0xFE) = Some (f AND 0xFE)"
    using compareLoop_entry [OF assms(1) assms(3) le, of "f AND 0xFE"] assms(2) by simp
  show ?thesis
  proof (cases "hasRoom s q")
    case True
    have "appendLoop q 0 (uartTxBuffer s, uartTxWrite s) =
      Some (appended s (reply q), uartTxWrite s + rLength q)"
      using appendLoop_eq [of 0 q "(uartTxBuffer s, uartTxWrite s)"] assms(1) assms(4) True
      by (simp add: entryOk_def hasRoom_def appended_def reply_def)
    then show ?thesis
      using le cmp True by (simp add: failed_bit0_clear hasRoom_def UARTTXMASK_def)
  next
    case False
    then show ?thesis
      using le cmp by (simp add: failed_bit0_clear hasRoom_def UARTTXMASK_def)
  qed
qed

lemma queryLoop_first_match:
  assumes "\<forall>p\<in>set pre. entryOk p \<and> \<not> entryMatches s p" "entryOk q" "entryMatches s q"
    "length (uartRxBuffer s) = 16" "length (uartTxBuffer s) = 16"
  shows "queryLoop (pre @ q # post) s f =
    Some (s\<lparr>uartTxBuffer := (if hasRoom s q then appended s (reply q) else uartTxBuffer s),
            uartTxWrite := (if hasRoom s q then uartTxWrite s + rLength q else uartTxWrite s)\<rparr>, 0)"
  using assms(1)
proof (induction pre arbitrary: f)
  case Nil
  show ?case using queryLoop_hit [OF assms(2-5)] by simp
next
  case (Cons p pre)
  have "queryLoop ((p # pre) @ q # post) s f =
    queryLoop (pre @ q # post) s (if needsMore s p then (f AND 0xFE) OR 0x02 else (f AND 0xFE) OR 0x01)"
    using queryLoop_skip [of p s "pre @ q # post" f] Cons.prems assms(4) by simp
  then show ?case using Cons.IH Cons.prems by simp
qed

lemma queryLoop_no_match:
  assumes "\<forall>p\<in>set tbl. entryOk p \<and> \<not> entryMatches s p" "length (uartRxBuffer s) = 16"
  shows "\<exists>g. queryLoop tbl s f = Some (s, g) \<and>
    ((g AND 0x02 = 0) = (f AND 0x02 = 0 \<and> (\<forall>p\<in>set tbl. \<not> needsMore s p)))"
  using assms(1)
proof (induction tbl arbitrary: f)
  case Nil
  show ?case by simp
next
  case (Cons p tbl)
  let ?f = "if needsMore s p then (f AND 0xFE) OR 0x02 else (f AND 0xFE) OR 0x01"
  have step: "queryLoop (p # tbl) s f = queryLoop tbl s ?f"
    using queryLoop_skip [of p s tbl f] Cons.prems assms(2) by simp
  obtain g where g: "queryLoop tbl s ?f = Some (s, g)"
    "(g AND 0x02 = 0) = (?f AND 0x02 = 0 \<and> (\<forall>p\<in>set tbl. \<not> needsMore s p))"
    using Cons.IH [of ?f] Cons.prems by auto
  have "(?f AND 0x02 = 0) = (f AND 0x02 = 0 \<and> \<not> needsMore s p)"
    using failed_bit1_set [of "f AND 0xFE"] by (simp add: failed_bit1_or1 failed_bit1_keep)
  then show ?case using step g by auto
qed

section \<open>The matcher\<close>

lemma ushioQuery_entryOk: "\<forall>q\<in>set ushioQuery. entryOk q"
  by (simp add: ushioQuery_def entryOk_def)

lemma matcherOn_first_match:
  assumes "uartRxState s = IDLE" "uartRxWrite s \<noteq> 0"
    "length (uartRxBuffer s) = 16" "length (uartTxBuffer s) = 16"
    "\<forall>q\<in>set tbl. entryOk q"
    "i < length tbl" "entryMatches s (tbl ! i)" "\<forall>k<i. \<not> entryMatches s (tbl ! k)"
  shows "matcherOn tbl s =
    Some (s\<lparr>uartTxBuffer :=
              (if hasRoom s (tbl ! i) then appended s (reply (tbl ! i)) else uartTxBuffer s),
            uartTxWrite :=
              (if hasRoom s (tbl ! i) then uartTxWrite s + rLength (tbl ! i) else uartTxWrite s),
            uartRxWrite := 0, uartRxRead := 0, rxTimeout := 0\<rparr>)"
proof -
  have split: "tbl = take i tbl @ tbl ! i # drop (Suc i) tbl"
    using assms(6) by (simp add: id_take_nth_drop [symmetric])
  have pre: "\<forall>p\<in>set (take i tbl). entryOk p \<and> \<not> entryMatches s p"
  proof
    fix p assume "p \<in> set (take i tbl)"
    then obtain k where k: "k < i" "p = tbl ! k"
      using assms(6) by (auto simp: in_set_conv_nth)
    then have "p \<in> set tbl" using assms(6) by simp
    then show "entryOk p \<and> \<not> entryMatches s p" using k assms(5) assms(8) by simp
  qed
  have ok: "entryOk (tbl ! i)" using assms(5) assms(6) by simp
  have "queryLoop (take i tbl @ tbl ! i # drop (Suc i) tbl) s 0 =
    Some (s\<lparr>uartTxBuffer :=
              (if hasRoom s (tbl ! i) then appended s (reply (tbl ! i)) else uartTxBuffer s),
            uartTxWrite :=
              (if hasRoom s (tbl ! i) then uartTxWrite s + rLength (tbl ! i) else uartTxWrite s)\<rparr>, 0)"
    by (rule queryLoop_first_match [OF pre ok assms(7) assms(3) assms(4)])
  then have "queryLoop tbl s 0 =
    Some (s\<lparr>uartTxBuffer :=
              (if hasRoom s (tbl ! i) then appended s (reply (tbl ! i)) else uartTxBuffer s),
            uartTxWrite :=
              (if hasRoom s (tbl ! i) then uartTxWrite s + rLength (tbl ! i) else uartTxWrite s)\<rparr>, 0)"
    using split by simp
  then show ?thesis
    using assms(1) assms(2) by (simp add: matcherOn_def word_greater_zero_iff)
qed

lemma first_match_index:
  assumes "\<exists>q\<in>set tbl. P q"
  shows "\<exists>i<length tbl. P (tbl ! i) \<and> (\<forall>k<i. \<not> P (tbl ! k))"
proof -
  from assms obtain j where j: "j < length tbl" "P (tbl ! j)"
    by (auto simp: in_set_conv_nth)
  define i where "i = (LEAST n. n < length tbl \<and> P (tbl ! n))"
  have "i < length tbl \<and> P (tbl ! i)"
    unfolding i_def using j by (metis (mono_tags, lifting) LeastI)
  moreover have "\<forall>k<i. \<not> P (tbl ! k)"
  proof (intro allI impI notI)
    fix k assume "k < i" "P (tbl ! k)"
    moreover from \<open>k < i\<close> \<open>i < length tbl \<and> P (tbl ! i)\<close> have "k < length tbl" by simp
    ultimately show False unfolding i_def using not_less_Least by blast
  qed
  ultimately show ?thesis by blast
qed

lemma matcherOn_no_match:
  assumes "uartRxState s = IDLE" "uartRxWrite s \<noteq> 0"
    "length (uartRxBuffer s) = 16"
    "\<forall>q\<in>set tbl. entryOk q" "\<forall>q\<in>set tbl. \<not> entryMatches s q"
  shows "matcherOn tbl s =
    Some (if (\<forall>q\<in>set tbl. \<not> needsMore s q) \<or> rxTimeout s = 0
          then s\<lparr>uartRxWrite := 0, uartRxRead := 0, rxTimeout := 0\<rparr> else s)"
proof -
  obtain g where g: "queryLoop tbl s 0 = Some (s, g)"
    "(g AND 0x02 = 0) = (\<forall>p\<in>set tbl. \<not> needsMore s p)"
    using queryLoop_no_match [of tbl s 0] assms(3-5) by auto
  have "g = 0 \<Longrightarrow> g AND 0x02 = 0" by simp
  then show ?thesis
    using assms(1) assms(2) g by (auto simp: matcherOn_def word_greater_zero_iff)
qed



lemma matcher_idle:
  "\<not> (uartRxState s = IDLE \<and> uartRxWrite s \<noteq> 0) \<Longrightarrow> matcher s = Some s"
  by (auto simp: matcher_def matcherOn_def word_greater_zero_iff)

lemma matcher_no_match:
  assumes "uartRxState s = IDLE" "uartRxWrite s \<noteq> 0" "length (uartRxBuffer s) = 16"
    "\<forall>q\<in>set ushioQuery. \<not> entryMatches s q"
  shows "matcher s =
    Some (if (\<forall>q\<in>set ushioQuery. \<not> needsMore s q) \<or> rxTimeout s = 0
          then s\<lparr>uartRxWrite := 0, uartRxRead := 0, rxTimeout := 0\<rparr> else s)"
  unfolding matcher_def
  by (rule matcherOn_no_match [OF assms(1) assms(2) assms(3) ushioQuery_entryOk assms(4)])

lemma matcher_match:
  assumes "uartRxState s = IDLE" "uartRxWrite s \<noteq> 0"
    "length (uartRxBuffer s) = 16" "length (uartTxBuffer s) = 16"
    "\<exists>q\<in>set ushioQuery. entryMatches s q"
  shows "\<exists>q\<in>set ushioQuery. entryMatches s q \<and>
    matcher s =
      Some (s\<lparr>uartTxBuffer := (if hasRoom s q then appended s (reply q) else uartTxBuffer s),
              uartTxWrite := (if hasRoom s q then uartTxWrite s + rLength q else uartTxWrite s),
              uartRxWrite := 0, uartRxRead := 0, rxTimeout := 0\<rparr>)"
proof -
  obtain i where i: "i < length ushioQuery" "entryMatches s (ushioQuery ! i)"
    "\<forall>k<i. \<not> entryMatches s (ushioQuery ! k)"
    using first_match_index [OF assms(5)] by blast
  have m: "matcher s =
    Some (s\<lparr>uartTxBuffer :=
            (if hasRoom s (ushioQuery ! i) then appended s (reply (ushioQuery ! i)) else uartTxBuffer s),
          uartTxWrite :=
            (if hasRoom s (ushioQuery ! i) then uartTxWrite s + rLength (ushioQuery ! i) else uartTxWrite s),
          uartRxWrite := 0, uartRxRead := 0, rxTimeout := 0\<rparr>)"
    unfolding matcher_def
    by (rule matcherOn_first_match [OF assms(1-4) ushioQuery_entryOk i])
  have "ushioQuery ! i \<in> set ushioQuery" using i(1) by simp
  then show ?thesis using i(2) m by (rule_tac x = "ushioQuery ! i" in bexI) simp_all
qed

text \<open>
  Claim C7. In a tick where the receive framer is IDLE and the receive queue is not
  empty, the matcher clears the receive queue (both cursors and the timeout counter
  become zero) exactly when a table entry matched, or no table entry needs more bytes
  than are buffered, or the timeout counter is zero; otherwise the matcher leaves the
  whole state as it was. The bytes of the receive buffer are never touched.
\<close>

theorem matcher_clears_iff:
  assumes "uartRxState s = IDLE" "uartRxWrite s \<noteq> 0"
    "length (uartRxBuffer s) = 16" "length (uartTxBuffer s) = 16"
  shows "\<exists>s'. matcher s = Some s' \<and>
    ((uartRxWrite s' = 0 \<and> uartRxRead s' = 0 \<and> rxTimeout s' = 0) =
       ((\<exists>q\<in>set ushioQuery. entryMatches s q) \<or>
        (\<forall>q\<in>set ushioQuery. \<not> needsMore s q) \<or> rxTimeout s = 0)) \<and>
    (\<not> ((\<exists>q\<in>set ushioQuery. entryMatches s q) \<or>
         (\<forall>q\<in>set ushioQuery. \<not> needsMore s q) \<or> rxTimeout s = 0) \<longrightarrow> s' = s) \<and>
    uartRxBuffer s' = uartRxBuffer s"
proof (cases "\<exists>q\<in>set ushioQuery. entryMatches s q")
  case True
  obtain q where "matcher s =
      Some (s\<lparr>uartTxBuffer := (if hasRoom s q then appended s (reply q) else uartTxBuffer s),
              uartTxWrite := (if hasRoom s q then uartTxWrite s + rLength q else uartTxWrite s),
              uartRxWrite := 0, uartRxRead := 0, rxTimeout := 0\<rparr>)"
    using matcher_match [OF assms True] by blast
  then show ?thesis using True by simp
next
  case False
  then have none: "\<forall>q\<in>set ushioQuery. \<not> entryMatches s q" by simp
  show ?thesis
  proof (cases "(\<forall>q\<in>set ushioQuery. \<not> needsMore s q) \<or> rxTimeout s = 0")
    case True
    then have "matcher s = Some (s\<lparr>uartRxWrite := 0, uartRxRead := 0, rxTimeout := 0\<rparr>)"
      using matcher_no_match [OF assms(1-3) none] by simp
    then show ?thesis using True by simp
  next
    case stay: False
    have "matcher s =
      Some (if (\<forall>q\<in>set ushioQuery. \<not> needsMore s q) \<or> rxTimeout s = 0
            then s\<lparr>uartRxWrite := 0, uartRxRead := 0, rxTimeout := 0\<rparr> else s)"
      by (rule matcher_no_match [OF assms(1-3) none])
    then have "matcher s = Some s"
      by (simp only: stay if_False)
    then show ?thesis using stay False assms(2) by simp
  qed
qed

text \<open>
  The byte 4C alone with the timeout still running: every entry needs more bytes, and
  the state stays as it is.
\<close>

theorem matcher_clears_iff_witness:
  "matcher (ushioInit\<lparr>uartRxBuffer := [0x4C] @ replicate 15 0, uartRxWrite := 1,
       rxTimeout := 5\<rparr>) =
   Some (ushioInit\<lparr>uartRxBuffer := [0x4C] @ replicate 15 0, uartRxWrite := 1,
       rxTimeout := 5\<rparr>)"
  using matcher_clears_iff
    [of "ushioInit\<lparr>uartRxBuffer := [0x4C] @ replicate 15 0, uartRxWrite := 1,
           rxTimeout := 5\<rparr>"]
  by (auto simp add: ushioInit_def ushioQuery_def entryMatches_def needsMore_def command_def
      word_le_nat_alt word_less_nat_alt)

lemma appended_length:
  "length (uartTxBuffer s) = 16 \<Longrightarrow> unat (uartTxWrite s) + length r \<le> 16 \<Longrightarrow>
   length (appended s r) = 16"
  by (simp add: appended_def)

lemma appended_outside:
  assumes "length (uartTxBuffer s) = 16" "unat (uartTxWrite s) + length r \<le> 16"
    "i < unat (uartTxWrite s) \<or> unat (uartTxWrite s) + length r \<le> i"
  shows "appended s r ! i = uartTxBuffer s ! i"
proof (cases "i < unat (uartTxWrite s)")
  case True
  then show ?thesis using assms(1,2) by (simp add: appended_def nth_append)
next
  case False
  then have ge: "unat (uartTxWrite s) + length r \<le> i" using assms(3) by simp
  then show ?thesis
    using assms(1,2) by (simp add: appended_def nth_append) arith
qed

lemma reply_length: "entryOk q \<Longrightarrow> length (reply q) = unat (rLength q)"
  by (simp add: reply_def entryOk_def)

text \<open>
  Claim C10. For every state with the two 16-byte buffers, whatever the cursors hold,
  the matcher performs no access outside an array (the result is not \<open>None\<close>) and
  the transmit buffer keeps its 16 bytes. Either the transmit buffer and its write cursor
  are unchanged, or a matching entry passed the guard of line 280
  (\<open>uartTxWrite + rLength < 15\<close>), its reply was stored in the slots from the old
  cursor up to the new one, the new cursor is the old one plus the reply length without
  wrap-around and is below 15, and every slot outside that range is unchanged. So when the
  guard fails, no byte of the transmit buffer is written.
\<close>

theorem matcher_tx_writes_in_bounds:
  assumes "length (uartRxBuffer s) = 16" "length (uartTxBuffer s) = 16"
  shows "\<exists>s'. matcher s = Some s' \<and> length (uartTxBuffer s') = 16 \<and>
    ((uartTxBuffer s' = uartTxBuffer s \<and> uartTxWrite s' = uartTxWrite s) \<or>
     (\<exists>q\<in>set ushioQuery. entryMatches s q \<and> hasRoom s q \<and>
        uartTxBuffer s' = appended s (reply q) \<and>
        unat (uartTxWrite s') = unat (uartTxWrite s) + unat (rLength q) \<and>
        unat (uartTxWrite s') < 15 \<and>
        (\<forall>i. i < unat (uartTxWrite s) \<or> unat (uartTxWrite s') \<le> i \<longrightarrow>
           uartTxBuffer s' ! i = uartTxBuffer s ! i)))"
proof (cases "uartRxState s = IDLE \<and> uartRxWrite s \<noteq> 0")
  case False
  then have "matcher s = Some s" by (rule matcher_idle)
  then show ?thesis using assms(2) by simp
next
  case active: True
  show ?thesis
  proof (cases "\<exists>q\<in>set ushioQuery. entryMatches s q")
    case False
    then have none: "\<forall>q\<in>set ushioQuery. \<not> entryMatches s q" by simp
    have "matcher s =
      Some (if (\<forall>q\<in>set ushioQuery. \<not> needsMore s q) \<or> rxTimeout s = 0
            then s\<lparr>uartRxWrite := 0, uartRxRead := 0, rxTimeout := 0\<rparr> else s)"
      using matcher_no_match [OF _ _ assms(1) none] active by simp
    then show ?thesis using assms(2) by (simp split: if_splits)
  next
    case True
    then obtain q where q: "q \<in> set ushioQuery" "entryMatches s q"
      "matcher s =
        Some (s\<lparr>uartTxBuffer := (if hasRoom s q then appended s (reply q) else uartTxBuffer s),
                uartTxWrite := (if hasRoom s q then uartTxWrite s + rLength q else uartTxWrite s),
                uartRxWrite := 0, uartRxRead := 0, rxTimeout := 0\<rparr>)"
      using matcher_match [OF _ _ assms True] active by blast
    show ?thesis
    proof (cases "hasRoom s q")
      case False
      then show ?thesis using q(3) assms(2) by simp
    next
      case room: True
      have ok: "entryOk q" using q(1) ushioQuery_entryOk by simp
      have len: "length (reply q) = unat (rLength q)" using ok by (rule reply_length)
      have sum: "unat (uartTxWrite s) + unat (rLength q) < 15"
        using room by (simp add: hasRoom_def)
      have w: "unat (uartTxWrite s + rLength q) = unat (uartTxWrite s) + unat (rLength q)"
        using sum by (simp add: unat_word_ariths)
      have l16: "length (appended s (reply q)) = 16"
        using appended_length [OF assms(2), of "reply q"] len sum by simp
      have out: "\<forall>i. i < unat (uartTxWrite s) \<or> unat (uartTxWrite s + rLength q) \<le> i \<longrightarrow>
           appended s (reply q) ! i = uartTxBuffer s ! i"
        using appended_outside [OF assms(2), of "reply q"] len sum w by simp
      let ?s' = "s\<lparr>uartTxBuffer := appended s (reply q), uartTxWrite := uartTxWrite s + rLength q,
                uartRxWrite := 0, uartRxRead := 0, rxTimeout := 0\<rparr>"
      have c1: "matcher s = Some ?s'"
        using q(3) room by simp
      have c2: "length (uartTxBuffer ?s') = 16"
        using l16 by simp
      have selw: "uartTxWrite ?s' = uartTxWrite s + rLength q" by simp
      have b3: "uartTxBuffer ?s' = appended s (reply q)" by simp
      have b4: "unat (uartTxWrite ?s') = unat (uartTxWrite s) + unat (rLength q)"
        by (simp only: selw w)
      have b5: "unat (uartTxWrite ?s') < 15"
        by (simp only: selw w sum)
      have b6: "\<forall>i. i < unat (uartTxWrite s) \<or> unat (uartTxWrite ?s') \<le> i \<longrightarrow>
           uartTxBuffer ?s' ! i = uartTxBuffer s ! i"
        unfolding selw b3 by (rule out)
      have body: "entryMatches s q \<and> hasRoom s q \<and>
        uartTxBuffer ?s' = appended s (reply q) \<and>
        unat (uartTxWrite ?s') = unat (uartTxWrite s) + unat (rLength q) \<and>
        unat (uartTxWrite ?s') < 15 \<and>
        (\<forall>i. i < unat (uartTxWrite s) \<or> unat (uartTxWrite ?s') \<le> i \<longrightarrow>
           uartTxBuffer ?s' ! i = uartTxBuffer s ! i)"
        by (intro conjI) (rule q(2) room b3 b4 b5 b6)+
      have c3: "\<exists>q\<in>set ushioQuery. entryMatches s q \<and> hasRoom s q \<and>
        uartTxBuffer ?s' = appended s (reply q) \<and>
        unat (uartTxWrite ?s') = unat (uartTxWrite s) + unat (rLength q) \<and>
        unat (uartTxWrite ?s') < 15 \<and>
        (\<forall>i. i < unat (uartTxWrite s) \<or> unat (uartTxWrite ?s') \<le> i \<longrightarrow>
           uartTxBuffer ?s' ! i = uartTxBuffer s ! i)"
      proof (rule bexI [of _ q])
        show "entryMatches s q \<and> hasRoom s q \<and>
          uartTxBuffer ?s' = appended s (reply q) \<and>
          unat (uartTxWrite ?s') = unat (uartTxWrite s) + unat (rLength q) \<and>
          unat (uartTxWrite ?s') < 15 \<and>
          (\<forall>i. i < unat (uartTxWrite s) \<or> unat (uartTxWrite ?s') \<le> i \<longrightarrow>
             uartTxBuffer ?s' ! i = uartTxBuffer s ! i)"
          by (rule body)
        show "q \<in> set ushioQuery" by (rule q(1))
      qed
      show ?thesis
        by (intro exI [of _ ?s'] conjI disjI2) (rule c1 c2 c3)+
    qed
  qed
qed

text \<open>
  With the write cursor at 13 no reply has room: the matched command is consumed and
  the transmit buffer and cursor stay.
\<close>

theorem matcher_tx_writes_in_bounds_witness:
  "map_option uartTxBuffer
     (matcher (ushioInit\<lparr>uartRxBuffer := [0x51, 0x0D] @ replicate 14 0, uartRxWrite := 2,
        uartTxBuffer := replicate 16 0, uartTxWrite := 13\<rparr>)) = Some (replicate 16 0) \<and>
   map_option uartTxWrite
     (matcher (ushioInit\<lparr>uartRxBuffer := [0x51, 0x0D] @ replicate 14 0, uartRxWrite := 2,
        uartTxBuffer := replicate 16 0, uartTxWrite := 13\<rparr>)) = Some 13"
  using matcher_tx_writes_in_bounds
    [of "ushioInit\<lparr>uartRxBuffer := [0x51, 0x0D] @ replicate 14 0, uartRxWrite := 2,
        uartTxBuffer := replicate 16 0, uartTxWrite := 13\<rparr>"]
  by (auto simp add: ushioInit_def ushioQuery_def hasRoom_def)

lemma matcher_at:
  assumes tbl: "ushioQuery = pre @ q # post"
    and pre: "\<forall>p\<in>set pre. \<not> entryMatches s p"
    and q: "entryMatches s q" "hasRoom s q"
    and st: "uartRxState s = IDLE" "uartRxWrite s \<noteq> 0"
    and len: "length (uartRxBuffer s) = 16" "length (uartTxBuffer s) = 16"
  shows "matcher s =
    Some (s\<lparr>uartTxBuffer := appended s (reply q), uartTxWrite := uartTxWrite s + rLength q,
            uartRxWrite := 0, uartRxRead := 0, rxTimeout := 0\<rparr>)"
proof -
  have ok: "\<forall>p\<in>set (pre @ q # post). entryOk p"
    using ushioQuery_entryOk tbl by simp
  have pre': "\<forall>p\<in>set pre. entryOk p \<and> \<not> entryMatches s p"
    using ok pre by simp
  have okq: "entryOk q" using ok by simp
  have "queryLoop (pre @ q # post) s 0 =
    Some (s\<lparr>uartTxBuffer := (if hasRoom s q then appended s (reply q) else uartTxBuffer s),
            uartTxWrite := (if hasRoom s q then uartTxWrite s + rLength q else uartTxWrite s)\<rparr>, 0)"
    by (rule queryLoop_first_match [OF pre' okq q(1) len])
  then show ?thesis
    using st q(2) by (simp add: matcher_def matcherOn_def tbl word_greater_zero_iff)
qed

lemma rxQueue_cursor:
  assumes "rxQueue s = cmd" "length (uartRxBuffer s) = 16" "length cmd < 16"
  shows "uartRxWrite s = of_nat (length cmd) \<and> take (length cmd) (uartRxBuffer s) = cmd"
proof -
  have "length (take (unat (uartRxWrite s)) (uartRxBuffer s)) = length cmd"
    using assms(1) by (simp add: rxQueue_def)
  then have n: "unat (uartRxWrite s) = length cmd"
    using assms(2) assms(3) by simp
  then have "of_nat (unat (uartRxWrite s)) = (of_nat (length cmd) :: u8)" by simp
  then have "uartRxWrite s = of_nat (length cmd)" by simp
  then show ?thesis using n assms(1) by (simp add: rxQueue_def)
qed

lemma take2_of_take3: "take 3 xs = [a, b, c] \<Longrightarrow> take 2 xs = [a, b]"
proof -
  assume "take 3 xs = [a, b, c]"
  then have "take 2 (take 3 xs) = take 2 [a, b, c]" by simp
  then show ?thesis by simp
qed

lemma matcher_listed_command_eq:
  assumes "(cmd, rep) \<in> set listedCommands" "uartRxState s = IDLE" "rxQueue s = cmd"
    "length (uartRxBuffer s) = 16" "length (uartTxBuffer s) = 16"
    "unat (uartTxWrite s) + length rep < 15"
  shows "matcher s =
    Some (s\<lparr>uartTxBuffer := appended s rep, uartTxWrite := uartTxWrite s + of_nat (length rep),
            uartRxWrite := 0, uartRxRead := 0, rxTimeout := 0\<rparr>)"
proof -
  have short: "length cmd < 16" using assms(1) by (auto simp: listedCommands_def)
  have cur: "uartRxWrite s = of_nat (length cmd)" "take (length cmd) (uartRxBuffer s) = cmd"
    using rxQueue_cursor [OF assms(3) assms(4) short] by simp_all
  consider
      (q) "cmd = [0x51, 0x0D]" "rep = [0x51, 0x32, 0x0D]"
    | (lf) "cmd = [0x4C, 0x46, 0x0D]" "rep = [0x41, 0x0D]"
    | (p) "cmd = [0x50, 0x0D]" "rep = [0x50, 0x46, 0x0D]"
    | (le) "cmd = [0x4C, 0x45, 0x0D]" "rep = [0x41, 0x0D]"
    using assms(1) by (auto simp: listedCommands_def)
  then show ?thesis
  proof cases
    case q
    have w: "uartRxWrite s = 2" and t2: "take 2 (uartRxBuffer s) = [0x51, 0x0D]"
      using cur q by (simp_all add: numeral_2_eq_2)
    show ?thesis
      using matcher_at [of "[]" "ushioQuery ! 0" "tl ushioQuery" s] assms(2,4,5,6) w t2 q
      by (simp add: ushioQuery_def entryMatches_def command_def reply_def hasRoom_def)
  next
    case lf
    have w: "uartRxWrite s = 3" and t3: "take 3 (uartRxBuffer s) = [0x4C, 0x46, 0x0D]"
      using cur lf by (simp_all add: numeral_3_eq_3)
    have t2: "take 2 (uartRxBuffer s) = [0x4C, 0x46]" using t3 by (rule take2_of_take3)
    show ?thesis
      using matcher_at [of "take 1 ushioQuery" "ushioQuery ! 1" "drop 2 ushioQuery" s]
        assms(2,4,5,6) w t2 t3 lf
      by (simp add: ushioQuery_def entryMatches_def command_def reply_def hasRoom_def)
  next
    case p
    have w: "uartRxWrite s = 2" and t2: "take 2 (uartRxBuffer s) = [0x50, 0x0D]"
      using cur p by (simp_all add: numeral_2_eq_2)
    show ?thesis
      using matcher_at [of "take 2 ushioQuery" "ushioQuery ! 2" "drop 3 ushioQuery" s]
        assms(2,4,5,6) w t2 p
      by (simp add: ushioQuery_def entryMatches_def command_def reply_def hasRoom_def)
  next
    case le
    have w: "uartRxWrite s = 3" and t3: "take 3 (uartRxBuffer s) = [0x4C, 0x45, 0x0D]"
      using cur le by (simp_all add: numeral_3_eq_3)
    have t2: "take 2 (uartRxBuffer s) = [0x4C, 0x45]" using t3 by (rule take2_of_take3)
    show ?thesis
      using matcher_at [of "take 4 ushioQuery" "ushioQuery ! 4" "drop 5 ushioQuery" s]
        assms(2,4,5,6) w t2 t3 le
      by (simp add: ushioQuery_def entryMatches_def command_def reply_def hasRoom_def)
  qed
qed

lemma txPending_appended:
  assumes "length (uartTxBuffer s) = 16" "unat (uartTxWrite s) + length rep < 15"
    "uartTxRead s \<le> uartTxWrite s"
  shows "txPending (s\<lparr>uartTxBuffer := appended s rep,
      uartTxWrite := uartTxWrite s + of_nat (length rep),
      uartRxWrite := 0, uartRxRead := 0, rxTimeout := 0\<rparr>) = txPending s @ rep"
proof -
  let ?w = "unat (uartTxWrite s)"
  have cur: "unat (uartTxWrite s + of_nat (length rep)) = ?w + length rep"
    using assms(2) by (simp add: unat_word_ariths unat_of_nat)
  have lw: "length (take ?w (uartTxBuffer s)) = ?w"
    using assms(1) assms(2) by simp
  have rw: "unat (uartTxRead s) \<le> ?w"
    using assms(3) by (simp add: word_le_nat_alt)
  have "take (?w + length rep) (appended s rep) = take ?w (uartTxBuffer s) @ rep"
    unfolding appended_def using lw by simp
  then show ?thesis
    using cur lw rw by (simp add: txPending_def)
qed

lemma ushioStep_matcher: "ushioStep pinb s = Option.bind (beforeMatcher pinb s) matcher"
  by (simp add: ushioStep_def beforeMatcher_def split: option.split)

text \<open>
  Five commands 51 0D sent back to back from power-on. The first four are answered with
  three bytes each, which leaves the transmit write cursor at 12 while the framer is still
  sending. In the tick that ends the fifth command the loop reaches the matcher with the
  receive framer IDLE and the receive queue holding exactly 51 0D; the reply 51 32 0D
  would fill the slots 12 to 14 of the 16-byte transmit buffer. The matcher consumes the
  command and stores nothing: the bytes pending for transmission are those pending before.
  Line 280 asks for \<open>15 > 12 + 3\<close>.
\<close>

theorem matcher_reply_dropped:
  "Option.bind (ushioRun (take 438 fiveQueries) ushioInit) (beforeMatcher (fiveQueries ! 438)) =
     Some fifthQuery \<and>
   uartRxState fifthQuery = IDLE \<and> rxQueue fifthQuery = [0x51, 0x0D] \<and>
   unat (uartTxWrite fifthQuery) + length [0x51, 0x32, 0x0D :: u8] = 15 \<and>
   length (uartTxBuffer fifthQuery) = 16 \<and>
   txPending fifthQuery = [0x0D, 0x51, 0x32, 0x0D] \<and>
   matcher fifthQuery = Some (fifthQuery\<lparr>uartRxWrite := 0, uartRxRead := 0, rxTimeout := 0\<rparr>) \<and>
   map_option txPending (matcher fifthQuery) = Some [0x0D, 0x51, 0x32, 0x0D]"
proof -
  have reach: "Option.bind (ushioRun (take 438 fiveQueries) ushioInit)
      (beforeMatcher (fiveQueries ! 438)) = Some fifthQuery"
    by code_simp
  have m: "matcher fifthQuery =
      Some (fifthQuery\<lparr>uartRxWrite := 0, uartRxRead := 0, rxTimeout := 0\<rparr>)"
    by code_simp
  have p: "txPending fifthQuery = [0x0D, 0x51, 0x32, 0x0D]"
    by (simp add: txPending_def fifthQuery_def)
  have p': "map_option txPending (matcher fifthQuery) = Some [0x0D, 0x51, 0x32, 0x0D]"
    unfolding m by (simp add: txPending_def fifthQuery_def)
  have rest: "uartRxState fifthQuery = IDLE" "rxQueue fifthQuery = [0x51, 0x0D]"
    "unat (uartTxWrite fifthQuery) + length [0x51, 0x32, 0x0D :: u8] = 15"
    "length (uartTxBuffer fifthQuery) = 16"
    by (simp_all add: fifthQuery_def rxQueue_def)
  show ?thesis
    by (intro conjI) (rule reach rest m p p')+
qed

text \<open>
  Claim C1, amended. For each command of the table (51 0D, 4C 46 0D, 50 0D, 4C 45 0D): if
  the receive queue holds exactly that command, the receive framer is IDLE and the guard of
  line 280 holds (the transmit write cursor plus the length of the reply is below 15), then
  one run of the matcher stores exactly the reply of that command from the transmit write
  cursor on, advances that cursor by the reply length, and resets both receive cursors (and
  the timeout) to zero. Nothing else changes. The bytes pending in the transmit queue are
  those pending before, followed by the reply.
\<close>

theorem matcher_listed_command:
  assumes "(cmd, rep) \<in> set listedCommands" "uartRxState s = IDLE" "rxQueue s = cmd"
    "length (uartRxBuffer s) = 16" "length (uartTxBuffer s) = 16"
    "unat (uartTxWrite s) + length rep < 15"
  shows "matcher s =
      Some (s\<lparr>uartTxBuffer := appended s rep, uartTxWrite := uartTxWrite s + of_nat (length rep),
              uartRxWrite := 0, uartRxRead := 0, rxTimeout := 0\<rparr>) \<and>
    (uartTxRead s \<le> uartTxWrite s \<longrightarrow>
       map_option txPending (matcher s) = Some (txPending s @ rep))"
proof -
  have m: "matcher s =
      Some (s\<lparr>uartTxBuffer := appended s rep, uartTxWrite := uartTxWrite s + of_nat (length rep),
              uartRxWrite := 0, uartRxRead := 0, rxTimeout := 0\<rparr>)"
    by (rule matcher_listed_command_eq [OF assms])
  have "map_option txPending (matcher s) = Some (txPending s @ rep)"
    if "uartTxRead s \<le> uartTxWrite s"
    unfolding m using txPending_appended [OF assms(5) assms(6) that] by simp
  then show ?thesis using m by simp
qed

text \<open>
  The command 50 0D with an empty transmit buffer.
\<close>

theorem matcher_listed_command_witness:
  "matcher (ushioInit\<lparr>uartRxBuffer := [0x50, 0x0D] @ replicate 14 0, uartRxWrite := 2,
       uartTxBuffer := replicate 16 0\<rparr>) =
   Some (ushioInit\<lparr>uartRxBuffer := [0x50, 0x0D] @ replicate 14 0, uartRxWrite := 0,
       uartTxBuffer := [0x50, 0x46, 0x0D] @ replicate 13 0, uartTxWrite := 3\<rparr>)"
  using matcher_listed_command
    [of "[0x50, 0x0D]" "[0x50, 0x46, 0x0D]"
        "ushioInit\<lparr>uartRxBuffer := [0x50, 0x0D] @ replicate 14 0, uartRxWrite := 2,
           uartTxBuffer := replicate 16 0\<rparr>"]
  by (simp add: ushioInit_def listedCommands_def rxQueue_def appended_def)

section \<open>The receive framer, step by step\<close>

text \<open>
  Claim C9. When the receive framer handles START and the sampled level is high, it
  goes back to IDLE with a zero tick delay and changes nothing else: the receive buffer,
  both cursors, the parity accumulator and the timeout counter keep their values, and no
  byte is recorded.
\<close>

theorem rx_start_glitch:
  "uartRxState s = START \<Longrightarrow> rxTick s = 0 \<Longrightarrow> rxBit s \<noteq> 0 \<Longrightarrow>
   rxFramer s = Some (s\<lparr>uartRxState := IDLE, rxTick := 0\<rparr>)"
  by (simp add: rxFramer_def)

theorem rx_start_glitch_witness:
  "rxFramer (ushioInit\<lparr>uartRxState := START, rxBit := 1, uartRxWrite := 1, rxTimeout := 7\<rparr>) =
   Some (ushioInit\<lparr>uartRxState := IDLE, rxBit := 1, uartRxWrite := 1, rxTimeout := 7\<rparr>)"
  using rx_start_glitch
    [of "ushioInit\<lparr>uartRxState := START, rxBit := 1, uartRxWrite := 1, rxTimeout := 7\<rparr>"]
  by (simp add: ushioInit_def)

section \<open>The transmit framer over a frame\<close>

lemma le_one_word: "(x :: u8) \<le> 1 \<Longrightarrow> x = 0 \<or> x = 1"
proof -
  assume "x \<le> 1"
  then have "unat x \<le> 1" by (simp add: word_le_nat_alt)
  then have "unat x = 0 \<or> unat x = 1" by arith
  then show ?thesis
  proof
    assume "unat x = 0"
    then show ?thesis by (simp add: unat_eq_0)
  next
    assume "unat x = 1"
    then have "(of_nat (unat x) :: u8) = of_nat 1" by simp
    then show ?thesis by simp
  qed
qed

lemma drive_level: "txLevel (PORTB (drive s)) = (txBit s \<noteq> 0)"
  by (simp add: drive_def txLevel_def TXPIN_def word_ao_absorbs bit.conj_disj_distrib and.assoc)

text \<open>A tick in which the transmit countdown does not reach zero.\<close>

lemma txStep_wait:
  assumes "txView s = (st, tk, b, p, wb, buf, r, w)" "tk \<noteq> 0" "tk \<noteq> 1"
    "st \<noteq> IDLE \<or> (r = 0 \<and> w = 0)"
  shows "\<exists>s'. txStep s = Some s' \<and> txLevel (PORTB s') = (b \<noteq> 0) \<and>
    txView s' = (st, tk - 1, b, p, wb, buf, r, w)"
proof -
  have "tk - 1 \<noteq> 0" using assms(3) by simp
  then show ?thesis
    using assms(1,2,4) drive_level [of s]
    by (auto simp: txView_def txStep_def txTimer_def txFramer_def txSchedule_def drive_def)
qed

lemma txStep_start:
  assumes "txView s = (START, tk, b, p, wb, buf, r, w)" "tk \<le> 1"
  shows "\<exists>s'. txStep s = Some s' \<and> txLevel (PORTB s') = (b \<noteq> 0) \<and>
    txView s' = (DATA, 4, 0, 0, 1, buf, r, w)"
  using assms(1) le_one_word [OF assms(2)] drive_level [of s]
  by (auto simp: txView_def txStep_def txTimer_def txFramer_def txSchedule_def drive_def)

lemma txStep_parity:
  assumes "txView s = (PARITY, tk, b, p, wb, buf, r, w)" "tk \<le> 1"
  shows "\<exists>s'. txStep s = Some s' \<and> txLevel (PORTB s') = (b \<noteq> 0) \<and>
    txView s' = (STOP, 4, p, p, wb, buf, r, w)"
  using assms(1) le_one_word [OF assms(2)] drive_level [of s]
  by (auto simp: txView_def txStep_def txTimer_def txFramer_def txSchedule_def drive_def)

lemma txStep_stop:
  assumes "txView s = (STOP, tk, b, p, wb, buf, r, w)" "tk \<le> 1"
  shows "\<exists>s'. txStep s = Some s' \<and> txLevel (PORTB s') = (b \<noteq> 0) \<and>
    txView s' = (if r < w then (START, 4, 1, p, wb, buf, r, w) else (IDLE, 4, 1, p, wb, buf, 0, 0))"
  using assms(1) le_one_word [OF assms(2)] drive_level [of s]
  by (auto simp: txView_def txStep_def txTimer_def txFramer_def txSchedule_def drive_def)

lemma txStep_data:
  assumes "txView s = (DATA, tk, b, p, 2 ^ k, buf, r, w)" "tk \<le> 1" "k < 8"
    "unat r < length buf"
  shows "\<exists>s'. txStep s = Some s' \<and> txLevel (PORTB s') = (b \<noteq> 0) \<and>
    txView s' =
      (if k = 7 then PARITY else DATA, 4, of_bool (bit (buf ! unat r) k),
       p XOR of_bool (bit (buf ! unat r) k), 2 ^ Suc k, buf,
       if k = 7 then (r + 1) AND UARTTXMASK else r, w)"
proof -
  have rd: "arrayRead buf (unat r) = Some (buf ! unat r)"
    using assms(4) by (simp add: arrayRead_def)
  have bt: "(buf ! unat r AND 2 ^ k \<noteq> 0) = bit (buf ! unat r) k"
    by (simp add: and_exp_eq_0_iff_not_bit)
  have last: "((2 :: u8) ^ Suc k = 0) = (k = 7)"
    using assms(3) by (auto simp: exp_eq_zero_iff simp del: power_Suc)
  have sh: "push_bit 1 ((2 :: u8) ^ k) = 2 ^ Suc k"
    by (simp add: push_bit_eq_mult)
  show ?thesis
    using assms(1) le_one_word [OF assms(2)] drive_level [of s] rd bt last sh
    by (auto simp: txView_def txStep_def txTimer_def txFramer_def txSchedule_def drive_def
        Let_def simp del: power_Suc)
qed

lemma txRun_one:
  "txStep s = Some s' \<Longrightarrow> txRun (Suc 0) s = Some ([PORTB s'], s')"
  by simp

lemma txRun_add:
  "txRun m s = Some (ps, s1) \<Longrightarrow> txRun n s1 = Some (qs, s2) \<Longrightarrow>
   txRun (m + n) s = Some (ps @ qs, s2)"
proof (induction m arbitrary: s ps)
  case 0
  then show ?case by simp
next
  case (Suc m)
  then show ?case
    by (auto split: option.splits)
qed

lemma tx_wait3:
  assumes "txView s = (st, 4, b, p, wb, buf, r, w)" "st \<noteq> IDLE \<or> (r = 0 \<and> w = 0)"
  shows "\<exists>ps s'. txRun 3 s = Some (ps, s') \<and> map txLevel ps = replicate 3 (b \<noteq> 0) \<and>
    txView s' = (st, 1, b, p, wb, buf, r, w)"
proof -
  obtain s1 where s1: "txStep s = Some s1" "txLevel (PORTB s1) = (b \<noteq> 0)"
    "txView s1 = (st, 3, b, p, wb, buf, r, w)"
    using txStep_wait [OF assms(1) _ _ assms(2)] by auto
  obtain s2 where s2: "txStep s1 = Some s2" "txLevel (PORTB s2) = (b \<noteq> 0)"
    "txView s2 = (st, 2, b, p, wb, buf, r, w)"
    using txStep_wait [OF s1(3) _ _ assms(2)] by auto
  obtain s3 where s3: "txStep s2 = Some s3" "txLevel (PORTB s3) = (b \<noteq> 0)"
    "txView s3 = (st, 1, b, p, wb, buf, r, w)"
    using txStep_wait [OF s2(3) _ _ assms(2)] by auto
  have "txRun 3 s = Some ([PORTB s1, PORTB s2, PORTB s3], s3)"
    using s1(1) s2(1) s3(1) by (simp add: numeral_3_eq_3)
  then show ?thesis using s1(2) s2(2) s3(2) s3(3) by (simp add: numeral_3_eq_3)
qed

text \<open>A four-tick phase: three ticks of waiting and the tick of the action.\<close>

lemma tx_phase:
  assumes "txView s = (st, 4, b, p, wb, buf, r, w)" "st \<noteq> IDLE"
    "\<And>s1. txView s1 = (st, 1, b, p, wb, buf, r, w) \<Longrightarrow>
       \<exists>s'. txStep s1 = Some s' \<and> txLevel (PORTB s') = (b \<noteq> 0) \<and> txView s' = v'"
  shows "\<exists>ps s'. txRun 4 s = Some (ps, s') \<and> map txLevel ps = replicate 4 (b \<noteq> 0) \<and>
    txView s' = v'"
proof -
  obtain ps s1 where w: "txRun 3 s = Some (ps, s1)" "map txLevel ps = replicate 3 (b \<noteq> 0)"
    "txView s1 = (st, 1, b, p, wb, buf, r, w)"
    using tx_wait3 [OF assms(1)] assms(2) by blast
  obtain s' where a: "txStep s1 = Some s'" "txLevel (PORTB s') = (b \<noteq> 0)" "txView s' = v'"
    using assms(3) [OF w(3)] by blast
  have "txRun (3 + 1) s = Some (ps @ [PORTB s'], s')"
    using txRun_add [OF w(1), of 1 "[PORTB s']" s'] a(1) by simp
  then have "txRun 4 s = Some (ps @ [PORTB s'], s')" by simp
  moreover have "map txLevel (ps @ [PORTB s']) = replicate 4 (b \<noteq> 0)"
    using w(2) a(2) by (simp add: numeral_eq_Suc replicate_append_same)
  ultimately show ?thesis using a(3) by blast
qed

lemma dataLevels_step: "k < 8 \<Longrightarrow> dataLevels v k = replicate 4 (bit v k) @ dataLevels v (Suc k)"
  by (simp add: dataLevels_def upt_conv_Cons)

lemma dataLevels_end: "dataLevels v 8 = []"
  by (simp add: dataLevels_def)

lemma parityFrom_step: "k < 8 \<Longrightarrow> parityFrom c v k = parityFrom (c \<noteq> bit v k) v (Suc k)"
  by (simp add: parityFrom_def upt_conv_Cons)

lemma parityFrom_end: "parityFrom c v 8 = c"
  by (simp add: parityFrom_def)

lemma frame_alt:
  "frame v = replicate 4 False @ dataLevels v 0 @ replicate 4 (parityFrom False v 0) @ replicate 4 True"
  by (simp add: frame_def dataLevels_def parityFrom_def xorReduce_def)

lemma of_bool_xor: "(of_bool c :: u8) XOR of_bool d = of_bool (c \<noteq> d)"
  by (cases c; cases d) simp_all

lemma of_bool_neq0: "((of_bool c :: u8) \<noteq> 0) = c"
  by simp

lemma tx_data_bits:
  assumes "txView s =
      (if k < 8 then DATA else PARITY, 4, b, of_bool c, 2 ^ k, buf,
       if k < 8 then r else (r + 1) AND UARTTXMASK, w)"
    "k \<le> 8" "unat r < length buf"
  shows "\<exists>ps s' b'. txRun (4 * (8 - k)) s = Some (ps, s') \<and>
    map txLevel ps @ replicate 4 (b' \<noteq> 0) = replicate 4 (b \<noteq> 0) @ dataLevels (buf ! unat r) k \<and>
    txView s' =
      (PARITY, 4, b', of_bool (parityFrom c (buf ! unat r) k), 0, buf,
       (r + 1) AND UARTTXMASK, w)"
  using assms(1) assms(2)
proof (induction "8 - k" arbitrary: k s b c)
  case 0
  then have k: "k = 8" by simp
  have "txRun (4 * (8 - k)) s = Some ([], s)" using k by simp
  moreover have "txView s =
      (PARITY, 4, b, of_bool (parityFrom c (buf ! unat r) k), 0, buf, (r + 1) AND UARTTXMASK, w)"
    using "0.prems"(1) k by (simp add: parityFrom_end)
  moreover have "map txLevel [] @ replicate 4 (b \<noteq> 0) =
      replicate 4 (b \<noteq> 0) @ dataLevels (buf ! unat r) k"
    using k by (simp add: dataLevels_end)
  ultimately show ?case by blast
next
  case (Suc n)
  let ?v = "buf ! unat r"
  have k: "k < 8" using Suc.hyps(2) by simp
  have view: "txView s = (DATA, 4, b, of_bool c, 2 ^ k, buf, r, w)"
    using Suc.prems(1) k by simp
  have act: "\<exists>s'. txStep s1 = Some s' \<and> txLevel (PORTB s') = (b \<noteq> 0) \<and>
      txView s' =
        (if Suc k < 8 then DATA else PARITY, 4, of_bool (bit ?v k), of_bool (c \<noteq> bit ?v k),
         2 ^ Suc k, buf, if Suc k < 8 then r else (r + 1) AND UARTTXMASK, w)"
    if "txView s1 = (DATA, 1, b, of_bool c, 2 ^ k, buf, r, w)" for s1
  proof -
    have st: "(if Suc k < 8 then DATA else PARITY) = (if k = 7 then PARITY else DATA)"
      using k by auto
    have rr: "(if Suc k < 8 then r else (r + 1) AND UARTTXMASK) =
        (if k = 7 then (r + 1) AND UARTTXMASK else r)"
      using k by auto
    show ?thesis
      unfolding st rr of_bool_xor [symmetric]
      by (rule txStep_data [OF that order_refl k assms(3)])
  qed
  obtain ps1 s1 where p1: "txRun 4 s = Some (ps1, s1)"
    "map txLevel ps1 = replicate 4 (b \<noteq> 0)"
    "txView s1 =
        (if Suc k < 8 then DATA else PARITY, 4, of_bool (bit ?v k), of_bool (c \<noteq> bit ?v k),
         2 ^ Suc k, buf, if Suc k < 8 then r else (r + 1) AND UARTTXMASK, w)"
    using tx_phase [OF view _ act] by blast
  have n: "n = 8 - Suc k" using Suc.hyps(2) by simp
  have le: "Suc k \<le> 8" using k by simp
  obtain ps2 s' b' where p2: "txRun (4 * (8 - Suc k)) s1 = Some (ps2, s')"
    "map txLevel ps2 @ replicate 4 (b' \<noteq> 0) =
       replicate 4 ((of_bool (bit ?v k) :: u8) \<noteq> 0) @ dataLevels ?v (Suc k)"
    "txView s' =
      (PARITY, 4, b', of_bool (parityFrom (c \<noteq> bit ?v k) ?v (Suc k)), 0, buf,
       (r + 1) AND UARTTXMASK, w)"
    using Suc.hyps(1) [OF n p1(3) le] by blast
  have ticks: "4 + 4 * (8 - Suc k) = 4 * (8 - k)" using k by arith
  have run: "txRun (4 * (8 - k)) s = Some (ps1 @ ps2, s')"
    using txRun_add [OF p1(1) p2(1)] ticks by simp
  have lv: "map txLevel (ps1 @ ps2) @ replicate 4 (b' \<noteq> 0) =
      replicate 4 (b \<noteq> 0) @ dataLevels ?v k"
    using p1(2) p2(2) dataLevels_step [OF k, of ?v] by (simp only: map_append append_assoc of_bool_neq0)
  have vw: "txView s' =
      (PARITY, 4, b', of_bool (parityFrom c ?v k), 0, buf, (r + 1) AND UARTTXMASK, w)"
    using p2(3) parityFrom_step [OF k, of c ?v] by simp
  show ?case using run lv vw by blast
qed

lemma tx_frame:
  assumes "txView T = (START, tk, 1, p, wb, buf, r, w)" "tk \<le> 1" "unat r < length buf"
  shows "\<exists>ps T'. txRun 44 T = Some (ps, T') \<and>
    map txLevel ps = True # butlast (frame (buf ! unat r)) \<and>
    txView T' =
      (if (r + 1) AND UARTTXMASK < w
       then (START, 1, 1, of_bool (xorReduce (buf ! unat r)), 0, buf, (r + 1) AND UARTTXMASK, w)
       else (IDLE, 1, 1, of_bool (xorReduce (buf ! unat r)), 0, buf, 0, 0))"
proof -
  let ?v = "buf ! unat r"
  let ?r = "(r + 1) AND UARTTXMASK"
  let ?par = "parityFrom False ?v 0"
  obtain s0 where a0: "txStep T = Some s0" "txLevel (PORTB s0) = ((1 :: u8) \<noteq> 0)"
    "txView s0 = (DATA, 4, 0, 0, 1, buf, r, w)"
    using txStep_start [OF assms(1) assms(2)] by blast
  have run0: "txRun 1 T = Some ([PORTB s0], s0)" using a0(1) by simp
  have view0: "txView s0 =
      (if 0 < (8 :: nat) then DATA else PARITY, 4, 0, of_bool False, 2 ^ 0, buf,
       if 0 < (8 :: nat) then r else (r + 1) AND UARTTXMASK, w)"
    using a0(3) by simp
  obtain ps1 s8 b8 where d: "txRun (4 * (8 - 0)) s0 = Some (ps1, s8)"
    "map txLevel ps1 @ replicate 4 (b8 \<noteq> 0) = replicate 4 ((0 :: u8) \<noteq> 0) @ dataLevels ?v 0"
    "txView s8 = (PARITY, 4, b8, of_bool ?par, 0, buf, ?r, w)"
    using tx_data_bits [OF view0 _ assms(3)] by blast
  obtain ps2 s9 where pa: "txRun 4 s8 = Some (ps2, s9)"
    "map txLevel ps2 = replicate 4 (b8 \<noteq> 0)"
    "txView s9 = (STOP, 4, of_bool ?par, of_bool ?par, 0, buf, ?r, w)"
    using tx_phase [OF d(3) _ txStep_parity [OF _ order_refl]] by blast
  obtain ps3 s10 where sp: "txRun 4 s9 = Some (ps3, s10)"
    "map txLevel ps3 = replicate 4 ((of_bool ?par :: u8) \<noteq> 0)"
    "txView s10 =
      (if ?r < w then (START, 4, 1, of_bool ?par, 0, buf, ?r, w)
       else (IDLE, 4, 1, of_bool ?par, 0, buf, 0, 0))"
    using tx_phase [OF pa(3) _ txStep_stop [OF _ order_refl]] by blast
  obtain ps4 T' where w3: "txRun 3 s10 = Some (ps4, T')"
    "map txLevel ps4 = replicate 3 ((1 :: u8) \<noteq> 0)"
    "txView T' =
      (if ?r < w then (START, 1, 1, of_bool ?par, 0, buf, ?r, w)
       else (IDLE, 1, 1, of_bool ?par, 0, buf, 0, 0))"
  proof (cases "?r < w")
    case True
    then have "txView s10 = (START, 4, 1, of_bool ?par, 0, buf, ?r, w)" using sp(3) by simp
    from tx_wait3 [OF this] True that show ?thesis by auto
  next
    case False
    then have "txView s10 = (IDLE, 4, 1, of_bool ?par, 0, buf, 0, 0)" using sp(3) by simp
    from tx_wait3 [OF this] False that show ?thesis by auto
  qed
  have r1: "txRun (1 + 32) T = Some ([PORTB s0] @ ps1, s8)"
    using txRun_add [OF run0, of 32 ps1 s8] d(1) by simp
  have r2: "txRun (1 + 32 + 4) T = Some (([PORTB s0] @ ps1) @ ps2, s9)"
    using txRun_add [OF r1 pa(1)] by simp
  have r3: "txRun (1 + 32 + 4 + 4) T = Some ((([PORTB s0] @ ps1) @ ps2) @ ps3, s10)"
    using txRun_add [OF r2 sp(1)] by simp
  have r4: "txRun (1 + 32 + 4 + 4 + 3) T = Some (((([PORTB s0] @ ps1) @ ps2) @ ps3) @ ps4, T')"
    using txRun_add [OF r3 w3(1)] by simp
  have run: "txRun 44 T = Some (((([PORTB s0] @ ps1) @ ps2) @ ps3) @ ps4, T')"
    using r4 by simp
  have "map txLevel (((([PORTB s0] @ ps1) @ ps2) @ ps3) @ ps4) =
      True # (map txLevel ps1 @ replicate 4 (b8 \<noteq> 0)) @ replicate 4 ?par @ replicate 3 True"
    using a0(2) pa(2) sp(2) w3(2) by simp
  also have "\<dots> = True # (replicate 4 False @ dataLevels ?v 0) @ replicate 4 ?par @ replicate 3 True"
    using d(2) by simp
  also have "\<dots> = True # butlast (frame ?v)"
    by (simp add: frame_alt butlast_append numeral_eq_Suc)
  finally have lv: "map txLevel (((([PORTB s0] @ ps1) @ ps2) @ ps3) @ ps4) =
      True # butlast (frame ?v)" .
  have par: "?par = xorReduce ?v" by (simp add: parityFrom_def xorReduce_def)
  show ?thesis using run lv w3(3) par by (auto simp del: One_nat_def)
qed

section \<open>The receive framer over a frame\<close>

lemma pinLevel_and: "pinLevel l AND RXPIN = of_bool l"
  by (simp add: pinLevel_def RXPIN_def)

lemma rxStep_wait:
  assumes "rxView s = (st, tk, rb, bt, buf, w)" "tk \<noteq> 0" "tk \<noteq> 1"
  shows "\<exists>s'. rxStep (pinLevel l) s = Some s' \<and> rxView s' = (st, tk - 1, of_bool l, bt, buf, w)"
proof -
  have "tk - 1 \<noteq> 0" using assms(3) by simp
  then show ?thesis
    using assms(1,2)
    by (auto simp: rxView_def rxStep_def sample_def rxTimer_def timeoutTimer_def rxFramer_def
        pinLevel_and)
qed

lemma rxStep_idle_high:
  assumes "rxView s = (IDLE, 0, rb, bt, buf, w)"
  shows "\<exists>s'. rxStep (pinLevel True) s = Some s' \<and> rxView s' = (IDLE, 0, 1, bt, buf, w)"
  using assms
  by (auto simp: rxView_def rxStep_def sample_def rxTimer_def timeoutTimer_def rxFramer_def
      pinLevel_and)

lemma rxStep_edge:
  assumes "rxView s = (IDLE, 0, 1, bt, buf, w)"
  shows "\<exists>s'. rxStep (pinLevel False) s = Some s' \<and> rxView s' = (START, 1, 0, bt, buf, w)"
  using assms
  by (auto simp: rxView_def rxStep_def sample_def rxTimer_def timeoutTimer_def rxFramer_def
      pinLevel_and)

lemma rxStep_confirm:
  assumes "rxView s = (START, tk, rb, bt, buf, w)" "tk \<le> 1" "unat w < length buf"
  shows "\<exists>s'. rxStep (pinLevel False) s = Some s' \<and>
    rxView s' = (DATA, 4, 0, 1, buf[unat w := 0], w)"
  using assms(1) le_one_word [OF assms(2)] assms(3)
  by (auto simp: rxView_def rxStep_def sample_def rxTimer_def timeoutTimer_def rxFramer_def
      pinLevel_and arrayWrite_def)

lemma rxStep_data:
  assumes "rxView s = (DATA, tk, rb, 2 ^ k, buf, w)" "tk \<le> 1" "k < 8" "unat w < length buf"
  shows "\<exists>s'. rxStep (pinLevel l) s = Some s' \<and>
    rxView s' =
      (if k = 7 then PARITY else DATA, 4, of_bool l, 2 ^ Suc k,
       buf[unat w := buf ! unat w OR (if l then 2 ^ k else 0)],
       if k = 7 then (w + 1) AND UARTRXMASK else w)"
proof -
  have last: "((2 :: u8) ^ Suc k = 0) = (k = 7)"
    using assms(3) by (auto simp: exp_eq_zero_iff simp del: power_Suc)
  have sh: "push_bit 1 ((2 :: u8) ^ k) = 2 ^ Suc k"
    by (simp add: push_bit_eq_mult)
  show ?thesis
    using assms(1) le_one_word [OF assms(2)] assms(4) last sh
    by (auto simp: rxView_def rxStep_def sample_def rxTimer_def timeoutTimer_def rxFramer_def
        pinLevel_and arrayWrite_def arrayRead_def Let_def simp del: power_Suc)
qed

lemma rxStep_parity:
  assumes "rxView s = (PARITY, tk, rb, bt, buf, w)" "tk \<le> 1"
  shows "\<exists>s'. rxStep (pinLevel l) s = Some s' \<and> rxView s' = (STOP, 4, of_bool l, bt, buf, w)"
  using assms(1) le_one_word [OF assms(2)]
  by (auto simp: rxView_def rxStep_def sample_def rxTimer_def timeoutTimer_def rxFramer_def
      pinLevel_and)

lemma rxStep_stop:
  assumes "rxView s = (STOP, tk, rb, bt, buf, w)" "tk \<le> 1"
  shows "\<exists>s'. rxStep (pinLevel l) s = Some s' \<and> rxView s' = (IDLE, 0, of_bool l, bt, buf, w)"
  using assms(1) le_one_word [OF assms(2)]
  by (auto simp: rxView_def rxStep_def sample_def rxTimer_def timeoutTimer_def rxFramer_def
      pinLevel_and)

lemma rxRun_append:
  "rxRun xs s = Some s1 \<Longrightarrow> rxRun ys s1 = r \<Longrightarrow> rxRun (xs @ ys) s = r"
  by (induction xs arbitrary: s) (auto split: option.splits)

lemma rx_phase:
  assumes "rxView s = (st, 2, rb, bt, buf, w)"
    "\<And>s1. rxView s1 = (st, 1, of_bool l1, bt, buf, w) \<Longrightarrow>
       \<exists>s'. rxStep (pinLevel l2) s1 = Some s' \<and> rxView s' = (st', 4, of_bool l2, bt', buf', w')"
  shows "\<exists>s'. rxRun (map pinLevel [l1, l2, l3, l4]) s = Some s' \<and>
    rxView s' = (st', 2, of_bool l4, bt', buf', w')"
proof -
  obtain s1 where s1: "rxStep (pinLevel l1) s = Some s1"
    "rxView s1 = (st, 1, of_bool l1, bt, buf, w)"
    using rxStep_wait [OF assms(1), of l1] by auto
  obtain s2 where s2: "rxStep (pinLevel l2) s1 = Some s2"
    "rxView s2 = (st', 4, of_bool l2, bt', buf', w')"
    using assms(2) [OF s1(2)] by blast
  obtain s3 where s3: "rxStep (pinLevel l3) s2 = Some s3"
    "rxView s3 = (st', 3, of_bool l3, bt', buf', w')"
    using rxStep_wait [OF s2(2), of l3] by auto
  obtain s4 where s4: "rxStep (pinLevel l4) s3 = Some s4"
    "rxView s4 = (st', 2, of_bool l4, bt', buf', w')"
    using rxStep_wait [OF s3(2), of l4] by auto
  have "rxRun (map pinLevel [l1, l2, l3, l4]) s = Some s4"
    using s1(1) s2(1) s3(1) s4(1) by simp
  then show ?thesis using s4(2) by blast
qed

lemma rx_start_phase:
  assumes "rxView s = (IDLE, 0, 1, bt, buf, w)" "unat w < length buf"
  shows "\<exists>s'. rxRun (map pinLevel (replicate 4 False)) s = Some s' \<and>
    rxView s' = (DATA, 2, 0, 1, buf[unat w := 0], w)"
proof -
  obtain s1 where s1: "rxStep (pinLevel False) s = Some s1"
    "rxView s1 = (START, 1, 0, bt, buf, w)"
    using rxStep_edge [OF assms(1)] by auto
  obtain s2 where s2: "rxStep (pinLevel False) s1 = Some s2"
    "rxView s2 = (DATA, 4, 0, 1, buf[unat w := 0], w)"
    using rxStep_confirm [OF s1(2) order_refl assms(2)] by auto
  obtain s3 where s3: "rxStep (pinLevel False) s2 = Some s3"
    "rxView s3 = (DATA, 3, of_bool False, 1, buf[unat w := 0], w)"
    using rxStep_wait [OF s2(2), of False] by auto
  obtain s4 where s4: "rxStep (pinLevel False) s3 = Some s4"
    "rxView s4 = (DATA, 2, of_bool False, 1, buf[unat w := 0], w)"
    using rxStep_wait [OF s3(2), of False] by auto
  have "rxRun (map pinLevel (replicate 4 False)) s = Some s4"
    using s1(1) s2(1) s3(1) s4(1) by (simp add: numeral_eq_Suc)
  then show ?thesis using s4(2) by auto
qed

lemma rx_stop_phase:
  assumes "rxView s = (STOP, 2, rb, bt, buf, w)"
  shows "\<exists>s'. rxRun (map pinLevel (replicate 3 True)) s = Some s' \<and>
    rxView s' = (IDLE, 0, 1, bt, buf, w)"
proof -
  obtain s1 where s1: "rxStep (pinLevel True) s = Some s1"
    "rxView s1 = (STOP, 1, of_bool True, bt, buf, w)"
    using rxStep_wait [OF assms(1), of True] by auto
  obtain s2 where s2: "rxStep (pinLevel True) s1 = Some s2"
    "rxView s2 = (IDLE, 0, of_bool True, bt, buf, w)"
    using rxStep_stop [OF s1(2) order_refl, of True] by auto
  obtain s3 where s3: "rxStep (pinLevel True) s2 = Some s3"
    "rxView s3 = (IDLE, 0, 1, bt, buf, w)"
    using rxStep_idle_high [OF s2(2)] by auto
  have "rxRun (map pinLevel (replicate 3 True)) s = Some s3"
    using s1(1) s2(1) s3(1) by (simp add: numeral_eq_Suc)
  then show ?thesis using s3(2) by auto
qed

lemma take_bit_Suc_or:
  "take_bit k (v :: u8) OR (if bit v k then 2 ^ k else 0) = take_bit (Suc k) v"
  by (rule bit_eqI) (auto simp: bit_simps less_Suc_eq)

lemma rx_data_bits:
  assumes "rxView s =
      (if k < 8 then DATA else PARITY, 2, rb, 2 ^ k, buf[unat w := take_bit k v],
       if k < 8 then w else (w + 1) AND UARTRXMASK)"
    "k \<le> 8" "unat w < length buf"
  shows "\<exists>s' rb'. rxRun (map pinLevel (dataLevels v k)) s = Some s' \<and>
    rxView s' = (PARITY, 2, rb', 0, buf[unat w := v], (w + 1) AND UARTRXMASK)"
  using assms(1) assms(2)
proof (induction "8 - k" arbitrary: k s rb)
  case 0
  then have k: "k = 8" by simp
  have "take_bit 8 v = v" by (simp add: take_bit_word_eq_self)
  then have "rxView s = (PARITY, 2, rb, 0, buf[unat w := v], (w + 1) AND UARTRXMASK)"
    using "0.prems"(1) k by simp
  moreover have "rxRun (map pinLevel (dataLevels v k)) s = Some s"
    using k by (simp add: dataLevels_end)
  ultimately show ?case by blast
next
  case (Suc n)
  let ?B = "buf[unat w := take_bit k v]"
  have k: "k < 8" using Suc.hyps(2) by simp
  have view: "rxView s = (DATA, 2, rb, 2 ^ k, ?B, w)"
    using Suc.prems(1) k by simp
  have len: "unat w < length ?B" using assms(3) by simp
  have upd: "?B[unat w := ?B ! unat w OR (if bit v k then 2 ^ k else 0)] =
      buf[unat w := take_bit (Suc k) v]"
    using assms(3) by (simp add: take_bit_Suc_or del: take_bit_Suc)
  have st: "(if Suc k < 8 then DATA else PARITY) = (if k = 7 then PARITY else DATA)"
    using k by auto
  have ww: "(if Suc k < 8 then w else (w + 1) AND UARTRXMASK) =
      (if k = 7 then (w + 1) AND UARTRXMASK else w)"
    using k by auto
  have act: "\<exists>s'. rxStep (pinLevel (bit v k)) s1 = Some s' \<and>
      rxView s' =
        (if Suc k < 8 then DATA else PARITY, 4, of_bool (bit v k), 2 ^ Suc k,
         buf[unat w := take_bit (Suc k) v],
         if Suc k < 8 then w else (w + 1) AND UARTRXMASK)"
    if "rxView s1 = (DATA, 1, of_bool (bit v k), 2 ^ k, ?B, w)" for s1
    unfolding st ww upd [symmetric]
    by (rule rxStep_data [OF that order_refl k len])
  obtain s1 where p1:
    "rxRun (map pinLevel [bit v k, bit v k, bit v k, bit v k]) s = Some s1"
    "rxView s1 =
        (if Suc k < 8 then DATA else PARITY, 2, of_bool (bit v k), 2 ^ Suc k,
         buf[unat w := take_bit (Suc k) v],
         if Suc k < 8 then w else (w + 1) AND UARTRXMASK)"
    using rx_phase [OF view act] by blast
  have n: "n = 8 - Suc k" using Suc.hyps(2) by simp
  have le: "Suc k \<le> 8" using k by simp
  obtain s' rb' where p2: "rxRun (map pinLevel (dataLevels v (Suc k))) s1 = Some s'"
    "rxView s' = (PARITY, 2, rb', 0, buf[unat w := v], (w + 1) AND UARTRXMASK)"
    using Suc.hyps(1) [OF n p1(2) le] by blast
  have "map pinLevel (dataLevels v k) =
      map pinLevel [bit v k, bit v k, bit v k, bit v k] @ map pinLevel (dataLevels v (Suc k))"
    using dataLevels_step [OF k, of v] by (simp add: numeral_eq_Suc)
  then have "rxRun (map pinLevel (dataLevels v k)) s = Some s'"
    using rxRun_append [OF p1(1) p2(1)] by simp
  then show ?case using p2(2) by blast
qed

lemma butlast_frame:
  "butlast (frame v) =
    replicate 4 False @ dataLevels v 0 @ replicate 4 (xorReduce v) @ replicate 3 True"
  by (simp add: frame_def dataLevels_def butlast_append numeral_eq_Suc)

lemma rx_frame_body:
  assumes "rxView s0 = (IDLE, 0, 1, bt, buf, w)" "unat w < length buf"
  shows "\<exists>R'. rxRun (map pinLevel (butlast (frame v))) s0 = Some R' \<and>
    rxView R' = (IDLE, 0, 1, 0, buf[unat w := v], (w + 1) AND UARTRXMASK)"
proof -
  let ?w = "(w + 1) AND UARTRXMASK"
  obtain s1 where a1: "rxRun (map pinLevel (replicate 4 False)) s0 = Some s1"
    "rxView s1 = (DATA, 2, 0, 1, buf[unat w := 0], w)"
    using rx_start_phase [OF assms(1) assms(2)] by blast
  have view1: "rxView s1 =
      (if 0 < (8 :: nat) then DATA else PARITY, 2, 0, 2 ^ 0, buf[unat w := take_bit 0 v],
       if 0 < (8 :: nat) then w else (w + 1) AND UARTRXMASK)"
    using a1(2) by simp
  obtain s2 rb2 where a2: "rxRun (map pinLevel (dataLevels v 0)) s1 = Some s2"
    "rxView s2 = (PARITY, 2, rb2, 0, buf[unat w := v], ?w)"
    using rx_data_bits [OF view1 _ assms(2)] by blast
  have act: "\<exists>s'. rxStep (pinLevel (xorReduce v)) s = Some s' \<and>
      rxView s' = (STOP, 4, of_bool (xorReduce v), 0, buf[unat w := v], ?w)"
    if "rxView s = (PARITY, 1, of_bool (xorReduce v), 0, buf[unat w := v], ?w)" for s
    by (rule rxStep_parity [OF that order_refl])
  obtain s3 where a3:
    "rxRun (map pinLevel [xorReduce v, xorReduce v, xorReduce v, xorReduce v]) s2 = Some s3"
    "rxView s3 = (STOP, 2, of_bool (xorReduce v), 0, buf[unat w := v], ?w)"
    using rx_phase [OF a2(2) act] by blast
  obtain s4 where a4: "rxRun (map pinLevel (replicate 3 True)) s3 = Some s4"
    "rxView s4 = (IDLE, 0, 1, 0, buf[unat w := v], ?w)"
    using rx_stop_phase [OF a3(2)] by blast
  have a3': "rxRun (map pinLevel (replicate 4 (xorReduce v))) s2 = Some s3"
    using a3(1) by (simp add: numeral_eq_Suc)
  have r34: "rxRun (map pinLevel (replicate 4 (xorReduce v)) @ map pinLevel (replicate 3 True)) s2 =
      Some s4"
    by (rule rxRun_append [OF a3' a4(1)])
  have r24: "rxRun (map pinLevel (dataLevels v 0) @
      map pinLevel (replicate 4 (xorReduce v)) @ map pinLevel (replicate 3 True)) s1 = Some s4"
    by (rule rxRun_append [OF a2(1) r34])
  have r14: "rxRun (map pinLevel (replicate 4 False) @ map pinLevel (dataLevels v 0) @
      map pinLevel (replicate 4 (xorReduce v)) @ map pinLevel (replicate 3 True)) s0 = Some s4"
    by (rule rxRun_append [OF a1(1) r24])
  have "rxRun (map pinLevel (butlast (frame v))) s0 = Some s4"
    using r14 by (simp add: butlast_frame)
  then show ?thesis using a4(2) by blast
qed

text \<open>A whole frame, received after the line was seen at rest.\<close>

lemma rx_frame_full:
  assumes "rxView R = (IDLE, 0, 1, bt, buf, w)" "unat w < length buf"
  shows "\<exists>R'. rxRun (map pinLevel (frame v)) R = Some R' \<and>
    rxView R' = (IDLE, 0, 1, 0, buf[unat w := v], (w + 1) AND UARTRXMASK)"
proof -
  obtain s1 where r: "rxRun (map pinLevel (butlast (frame v))) R = Some s1"
    "rxView s1 = (IDLE, 0, 1, 0, buf[unat w := v], (w + 1) AND UARTRXMASK)"
    using rx_frame_body [OF assms] by blast
  obtain R' where a: "rxStep (pinLevel True) s1 = Some R'"
    "rxView R' = (IDLE, 0, 1, 0, buf[unat w := v], (w + 1) AND UARTRXMASK)"
    using rxStep_idle_high [OF r(2)] by blast
  have fr: "frame v = butlast (frame v) @ [True]"
    by (simp add: frame_def butlast_append numeral_eq_Suc)
  have "rxRun (map pinLevel (butlast (frame v)) @ map pinLevel [True]) R = Some R'"
    using rxRun_append [OF r(1), of "map pinLevel [True]"] a(1) by simp
  then have "rxRun (map pinLevel (frame v)) R = Some R'"
    using fr by (metis map_append)
  then show ?thesis using a(2) by blast
qed


section \<open>Parity and stop bits are not checked\<close>

lemma rx_frame_unchecked:
  assumes "rxView s0 = (IDLE, 0, 1, bt, buf, w)" "unat w < length buf"
  shows "\<exists>R'. rxRun (map pinLevel
      (replicate 4 False @ dataLevels v 0 @ [p1, p2, p3, p4] @ [q1, q2])) s0 = Some R' \<and>
    rxView R' = (IDLE, 0, of_bool q2, 0, buf[unat w := v], (w + 1) AND UARTRXMASK)"
proof -
  let ?w = "(w + 1) AND UARTRXMASK"
  obtain s1 where a1: "rxRun (map pinLevel (replicate 4 False)) s0 = Some s1"
    "rxView s1 = (DATA, 2, 0, 1, buf[unat w := 0], w)"
    using rx_start_phase [OF assms(1) assms(2)] by blast
  have view1: "rxView s1 =
      (if 0 < (8 :: nat) then DATA else PARITY, 2, 0, 2 ^ 0, buf[unat w := take_bit 0 v],
       if 0 < (8 :: nat) then w else (w + 1) AND UARTRXMASK)"
    using a1(2) by simp
  obtain s2 rb2 where a2: "rxRun (map pinLevel (dataLevels v 0)) s1 = Some s2"
    "rxView s2 = (PARITY, 2, rb2, 0, buf[unat w := v], ?w)"
    using rx_data_bits [OF view1 _ assms(2)] by blast
  have act: "\<exists>s'. rxStep (pinLevel p2) s = Some s' \<and>
      rxView s' = (STOP, 4, of_bool p2, 0, buf[unat w := v], ?w)"
    if "rxView s = (PARITY, 1, of_bool p1, 0, buf[unat w := v], ?w)" for s
    by (rule rxStep_parity [OF that order_refl])
  obtain s3 where a3: "rxRun (map pinLevel [p1, p2, p3, p4]) s2 = Some s3"
    "rxView s3 = (STOP, 2, of_bool p4, 0, buf[unat w := v], ?w)"
    using rx_phase [OF a2(2) act] by blast
  obtain s4 where a4: "rxStep (pinLevel q1) s3 = Some s4"
    "rxView s4 = (STOP, 1, of_bool q1, 0, buf[unat w := v], ?w)"
    using rxStep_wait [OF a3(2), of q1] by auto
  obtain s5 where a5: "rxStep (pinLevel q2) s4 = Some s5"
    "rxView s5 = (IDLE, 0, of_bool q2, 0, buf[unat w := v], ?w)"
    using rxStep_stop [OF a4(2) order_refl, of q2] by auto
  have r45: "rxRun (map pinLevel [q1, q2]) s3 = Some s5"
    using a4(1) a5(1) by simp
  have r35: "rxRun (map pinLevel [p1, p2, p3, p4] @ map pinLevel [q1, q2]) s2 = Some s5"
    by (rule rxRun_append [OF a3(1) r45])
  have r25: "rxRun (map pinLevel (dataLevels v 0) @
      map pinLevel [p1, p2, p3, p4] @ map pinLevel [q1, q2]) s1 = Some s5"
    by (rule rxRun_append [OF a2(1) r35])
  have r15: "rxRun (map pinLevel (replicate 4 False) @ map pinLevel (dataLevels v 0) @
      map pinLevel [p1, p2, p3, p4] @ map pinLevel [q1, q2]) s0 = Some s5"
    by (rule rxRun_append [OF a1(1) r25])
  have "rxRun (map pinLevel
      (replicate 4 False @ dataLevels v 0 @ [p1, p2, p3, p4] @ [q1, q2])) s0 = Some s5"
    using r15 by simp
  then show ?thesis using a5(2) by blast
qed

text \<open>
  Claim C8. The receive framer ignores the sampled value \<open>p\<close> of the parity bit and
  of the stop bit: whatever it is, PARITY goes to STOP with a delay of 4 ticks and STOP
  goes to IDLE with a delay of zero, and nothing else changes. After a stop bit sampled
  high, a low level in the very next tick is detected as a start edge. Over a whole frame
  (start bit, the data bits of \<open>v\<close>, then any levels \<open>p1\<close> to \<open>p4\<close> in the
  ticks of the parity bit and any levels \<open>q1\<close>, \<open>q2\<close> in those of the stop bit)
  the byte stored and the write cursor are the same: \<open>v\<close> in the slot under the
  cursor, and the cursor advanced by one.
\<close>

theorem rx_parity_stop_ignored:
  assumes "rxTick s = 0"
  shows
   "(uartRxState s = PARITY \<longrightarrow>
      rxFramer (s\<lparr>rxBit := p\<rparr>) = Some (s\<lparr>rxBit := p, uartRxState := STOP, rxTick := 4\<rparr>)) \<and>
    (uartRxState s = STOP \<longrightarrow>
      rxFramer (s\<lparr>rxBit := p\<rparr>) = Some (s\<lparr>rxBit := p, uartRxState := IDLE, rxTick := 0\<rparr>) \<and>
      (\<not> rxLevel pinb \<longrightarrow>
         map_option uartRxState
           (rxStep pinb (s\<lparr>rxBit := 1, uartRxState := IDLE, rxTick := 0\<rparr>)) = Some START)) \<and>
    (uartRxState s = IDLE \<and> rxBit s = 1 \<and> unat (uartRxWrite s) < length (uartRxBuffer s) \<longrightarrow>
      (\<exists>s'. rxRun (map pinLevel
            (replicate 4 False @ dataLevels v 0 @ [p1, p2, p3, p4] @ [q1, q2])) s = Some s' \<and>
         uartRxBuffer s' = (uartRxBuffer s)[unat (uartRxWrite s) := v] \<and>
         uartRxWrite s' = (uartRxWrite s + 1) AND UARTRXMASK \<and>
         uartRxState s' = IDLE \<and> rxTick s' = 0))"
proof (intro conjI impI)
  show "rxFramer (s\<lparr>rxBit := p\<rparr>) = Some (s\<lparr>rxBit := p, uartRxState := STOP, rxTick := 4\<rparr>)"
    if "uartRxState s = PARITY"
    using that assms by (simp add: rxFramer_def)
  show "rxFramer (s\<lparr>rxBit := p\<rparr>) = Some (s\<lparr>rxBit := p, uartRxState := IDLE, rxTick := 0\<rparr>)"
    if "uartRxState s = STOP"
    using that assms by (simp add: rxFramer_def)
  show "map_option uartRxState
      (rxStep pinb (s\<lparr>rxBit := 1, uartRxState := IDLE, rxTick := 0\<rparr>)) = Some START"
    if "uartRxState s = STOP" "\<not> rxLevel pinb"
    using that
    by (simp add: rxFramer_def rxStep_def sample_def rxTimer_def timeoutTimer_def rxLevel_def)
  show "\<exists>s'. rxRun (map pinLevel
          (replicate 4 False @ dataLevels v 0 @ [p1, p2, p3, p4] @ [q1, q2])) s = Some s' \<and>
       uartRxBuffer s' = (uartRxBuffer s)[unat (uartRxWrite s) := v] \<and>
       uartRxWrite s' = (uartRxWrite s + 1) AND UARTRXMASK \<and>
       uartRxState s' = IDLE \<and> rxTick s' = 0"
    if h: "uartRxState s = IDLE \<and> rxBit s = 1 \<and> unat (uartRxWrite s) < length (uartRxBuffer s)"
  proof -
    have rv: "rxView s = (IDLE, 0, 1, readBit s, uartRxBuffer s, uartRxWrite s)"
      using h assms by (simp add: rxView_def)
    have len: "unat (uartRxWrite s) < length (uartRxBuffer s)" using h by simp
    obtain s' where a: "rxRun (map pinLevel
          (replicate 4 False @ dataLevels v 0 @ [p1, p2, p3, p4] @ [q1, q2])) s = Some s'"
      "rxView s' = (IDLE, 0, of_bool q2, 0, (uartRxBuffer s)[unat (uartRxWrite s) := v],
         (uartRxWrite s + 1) AND UARTRXMASK)"
      using rx_frame_unchecked [OF rv len, where v = v and ?p1.0 = p1 and ?p2.0 = p2
          and ?p3.0 = p3 and ?p4.0 = p4 and ?q1.0 = q1 and ?q2.0 = q2]
      by (elim exE conjE) (rule that)
    show ?thesis
      using a by (intro exI [of _ s']) (simp add: rxView_def)
  qed
qed

theorem rx_parity_stop_ignored_witness:
  "rxFramer (ushioInit\<lparr>uartRxState := PARITY, rxParity := 1, rxBit := 0\<rparr>) =
     Some (ushioInit\<lparr>uartRxState := STOP, rxParity := 1, rxBit := 0, rxTick := 4\<rparr>) \<and>
   rxFramer (ushioInit\<lparr>uartRxState := STOP, rxBit := 0\<rparr>) =
     Some (ushioInit\<lparr>uartRxState := IDLE, rxBit := 0\<rparr>) \<and>
   map_option uartRxBuffer
     (rxRun (map pinLevel (replicate 4 False @ dataLevels 0x41 0 @
              [True, True, True, True] @ [False, False]))
        (ushioInit\<lparr>rxBit := 1\<rparr>)) = Some ((replicate 16 0)[0 := 0x41])"
proof -
  have a: "rxFramer (ushioInit\<lparr>uartRxState := PARITY, rxParity := 1, rxBit := 0\<rparr>) =
     Some (ushioInit\<lparr>uartRxState := STOP, rxParity := 1, rxBit := 0, rxTick := 4\<rparr>)"
    using rx_parity_stop_ignored [of "ushioInit\<lparr>uartRxState := PARITY, rxParity := 1\<rparr>" 0]
    by (simp add: ushioInit_def)
  have b: "rxFramer (ushioInit\<lparr>uartRxState := STOP, rxBit := 0\<rparr>) =
     Some (ushioInit\<lparr>uartRxState := IDLE, rxBit := 0\<rparr>)"
    using rx_parity_stop_ignored [of "ushioInit\<lparr>uartRxState := STOP\<rparr>" 0]
    by (simp add: ushioInit_def)
  have c: "map_option uartRxBuffer
     (rxRun (map pinLevel (replicate 4 False @ dataLevels 0x41 0 @
              [True, True, True, True] @ [False, False]))
        (ushioInit\<lparr>rxBit := 1\<rparr>)) = Some ((replicate 16 0)[0 := 0x41])"
    using rx_parity_stop_ignored [of "ushioInit\<lparr>rxBit := 1\<rparr>" _ _ "0x41" True True True True False False]
    by (auto simp: ushioInit_def)
  show ?thesis using a b c by simp
qed

section \<open>A stream of frames\<close>

lemma mask15_small: "unat (x :: u8) < 16 \<Longrightarrow> x AND 0x0F = x"
proof -
  assume "unat x < 16"
  then have "x < 2 ^ 4" by (simp add: word_less_nat_alt)
  then have "x AND mask 4 = x" by (rule less_mask_eq)
  then show ?thesis by (simp add: mask_eq_exp_minus_1)
qed

lemma cursor_next:
  assumes "unat (x :: u8) < 15"
  shows "(x + 1) AND 0x0F = x + 1" "unat (x + 1) = unat x + 1"
proof -
  show u: "unat (x + 1) = unat x + 1"
    using assms by (simp add: unat_word_ariths)
  then have "unat (x + 1) < 16" using assms by simp
  then show "(x + 1) AND 0x0F = x + 1" by (rule mask15_small)
qed


section \<open>The receive framer inside the loop\<close>

text \<open>
  An iteration of the whole loop does to the variables of the receive framer what its
  receive half does, and then the matcher may clear the queue: in a tick that leaves the
  framer IDLE the write cursor is as the framer left it or zero. The loop performs no
  access outside a buffer.
\<close>

lemma and15_lt: "unat ((x :: u8) AND 0x0F) < 16"
proof -
  have "x AND 0x0F \<le> 0x0F" by (rule word_and_le1)
  then show ?thesis by (simp add: word_le_nat_alt)
qed

lemma loop_timers:
  "timers (drive (sample p s)) =
    (timeoutTimer (rxTimer (sample p s)))\<lparr>PORTB := PORTB (drive s), txTick := txTick (txTimer s)\<rparr>"
  by (simp add: timers_def drive_def sample_def rxTimer_def txTimer_def timeoutTimer_def)

lemma rxFramer_frame:
  "rxFramer (x\<lparr>PORTB := a, txTick := b\<rparr>) =
    map_option (\<lambda>r. r\<lparr>PORTB := a, txTick := b\<rparr>) (rxFramer x)"
  by (simp add: rxFramer_def Let_def arrayRead_def arrayWrite_def)

lemma loop_rx:
  "rxFramer (timers (drive (sample p s))) =
    map_option (\<lambda>r. r\<lparr>PORTB := PORTB (drive s), txTick := txTick (txTimer s)\<rparr>) (rxStep p s)"
  unfolding loop_timers rxFramer_frame rxStep_def ..


lemma txFramer_rx:
  assumes "length (uartTxBuffer y) = 16" "unat (uartTxRead y) < 16"
  shows "\<exists>y'. txFramer y = Some y' \<and> rxView y' = rxView y \<and>
    uartTxBuffer y' = uartTxBuffer y \<and> unat (uartTxRead y') < 16"
  using assms and15_lt [of "uartTxRead y + 1"]
  by (simp add: txFramer_def Let_def arrayRead_def rxView_def UARTTXMASK_def)

lemma txSchedule_rx:
  "rxView (txSchedule y) = rxView y \<and> uartTxBuffer (txSchedule y) = uartTxBuffer y \<and>
   (unat (uartTxRead y) < 16 \<longrightarrow> unat (uartTxRead (txSchedule y)) < 16)"
  by (simp add: txSchedule_def rxView_def)

lemma matcher_rx:
  assumes "length (uartRxBuffer s) = 16" "length (uartTxBuffer s) = 16"
  shows "\<exists>s'. matcher s = Some s' \<and> length (uartTxBuffer s') = 16 \<and>
    uartTxRead s' = uartTxRead s \<and>
    uartRxState s' = uartRxState s \<and> rxTick s' = rxTick s \<and> rxBit s' = rxBit s \<and>
    readBit s' = readBit s \<and> uartRxBuffer s' = uartRxBuffer s \<and>
    (uartRxWrite s' = uartRxWrite s \<or> uartRxState s = IDLE \<and> uartRxWrite s' = 0) \<and>
    (uartRxState s = IDLE \<and> 3 \<le> unat (uartRxWrite s) \<longrightarrow> uartRxWrite s' = 0)"
proof (cases "uartRxState s = IDLE \<and> uartRxWrite s \<noteq> 0")
  case False
  then have "matcher s = Some s" by (rule matcher_idle)
  then show ?thesis using assms(2) False by auto
next
  case active: True
  show ?thesis
  proof (cases "\<exists>q\<in>set ushioQuery. entryMatches s q")
    case False
    then have none: "\<forall>q\<in>set ushioQuery. \<not> entryMatches s q" by simp
    have m: "matcher s =
      Some (if (\<forall>q\<in>set ushioQuery. \<not> needsMore s q) \<or> rxTimeout s = 0
            then s\<lparr>uartRxWrite := 0, uartRxRead := 0, rxTimeout := 0\<rparr> else s)"
      using matcher_no_match [OF _ _ assms(1) none] active by simp
    have full: "\<forall>q\<in>set ushioQuery. \<not> needsMore s q" if "3 \<le> unat (uartRxWrite s)"
      using that by (simp add: ushioQuery_def needsMore_def word_less_nat_alt)
    show ?thesis
    proof (cases "(\<forall>q\<in>set ushioQuery. \<not> needsMore s q) \<or> rxTimeout s = 0")
      case True
      then have "matcher s = Some (s\<lparr>uartRxWrite := 0, uartRxRead := 0, rxTimeout := 0\<rparr>)"
        using m by simp
      then show ?thesis using assms(2) active by simp
    next
      case False
      then have "matcher s = Some s" using m by (simp only: if_False)
      moreover have "\<not> 3 \<le> unat (uartRxWrite s)" using False full by blast
      ultimately show ?thesis using assms(2) by simp
    qed
  next
    case True
    then obtain q where q: "q \<in> set ushioQuery"
      "matcher s =
        Some (s\<lparr>uartTxBuffer := (if hasRoom s q then appended s (reply q) else uartTxBuffer s),
                uartTxWrite := (if hasRoom s q then uartTxWrite s + rLength q else uartTxWrite s),
                uartRxWrite := 0, uartRxRead := 0, rxTimeout := 0\<rparr>)"
      using matcher_match [OF _ _ assms True] active by blast
    have ok: "entryOk q" using q(1) ushioQuery_entryOk by simp
    have len: "length (reply q) = unat (rLength q)" using ok by (rule reply_length)
    have l16: "length (appended s (reply q)) = 16" if "hasRoom s q"
      using appended_length [OF assms(2), of "reply q"] len that by (simp add: hasRoom_def)
    show ?thesis
      unfolding q(2) using assms(2) active l16 by simp
  qed
qed


lemma rxFramer_sane:
  assumes "rxFramer x = Some r" "length (uartRxBuffer x) = 16" "unat (uartRxWrite x) < 16"
  shows "length (uartRxBuffer r) = 16 \<and> unat (uartRxWrite r) < 16"
  using assms and15_lt [of "uartRxWrite x + 1"]
  by (auto simp: rxFramer_def Let_def arrayRead_def arrayWrite_def UARTRXMASK_def
      split: if_splits)


lemma rxFramer_tx:
  assumes "rxFramer x = Some r"
  shows "uartTxBuffer r = uartTxBuffer x \<and> uartTxRead r = uartTxRead x"
  using assms
  by (auto simp: rxFramer_def Let_def arrayRead_def arrayWrite_def split: if_splits)

lemma ushioStep_rx:
  assumes "sane s" "rxStep p s = Some r"
  shows "\<exists>s'. ushioStep p s = Some s' \<and> sane s' \<and>
    uartRxState s' = uartRxState r \<and> rxTick s' = rxTick r \<and> rxBit s' = rxBit r \<and>
    readBit s' = readBit r \<and> uartRxBuffer s' = uartRxBuffer r \<and>
    (uartRxWrite s' = uartRxWrite r \<or> uartRxState r = IDLE \<and> uartRxWrite s' = 0) \<and>
    (uartRxState r = IDLE \<and> 3 \<le> unat (uartRxWrite r) \<longrightarrow> uartRxWrite s' = 0)"
proof -
  let ?x = "timeoutTimer (rxTimer (sample p s))"
  let ?r1 = "r\<lparr>PORTB := PORTB (drive s), txTick := txTick (txTimer s)\<rparr>"
  have x: "rxFramer ?x = Some r" using assms(2) by (simp add: rxStep_def)
  have xs: "uartRxBuffer ?x = uartRxBuffer s" "uartRxWrite ?x = uartRxWrite s"
    "uartTxBuffer ?x = uartTxBuffer s" "uartTxRead ?x = uartTxRead s"
    by (simp_all add: timeoutTimer_def rxTimer_def sample_def)
  have rs: "length (uartRxBuffer r) = 16" "unat (uartRxWrite r) < 16"
    using rxFramer_sane [OF x] assms(1) xs by (simp_all add: sane_def)
  have rt: "uartTxBuffer r = uartTxBuffer s" "uartTxRead r = uartTxRead s"
    using rxFramer_tx [OF x] xs by simp_all
  have a: "rxFramer (timers (drive (sample p s))) = Some ?r1"
    unfolding loop_rx assms(2) by simp
  have t1: "length (uartTxBuffer ?r1) = 16" "unat (uartTxRead ?r1) < 16"
    using rt assms(1) by (simp_all add: sane_def)
  obtain y where y: "txFramer ?r1 = Some y" "rxView y = rxView ?r1"
    "uartTxBuffer y = uartTxBuffer ?r1" "unat (uartTxRead y) < 16"
    using txFramer_rx [OF t1] by (elim exE conjE) (rule that)
  let ?z = "txSchedule y"
  have z: "rxView ?z = rxView r" "length (uartTxBuffer ?z) = 16" "unat (uartTxRead ?z) < 16"
    using txSchedule_rx [of y] y t1 by (simp_all add: rxView_def)
  have zl: "length (uartRxBuffer ?z) = 16"
    using z(1) rs(1) by (simp add: rxView_def)
  obtain s' where m: "matcher ?z = Some s'" "length (uartTxBuffer s') = 16"
    "uartTxRead s' = uartTxRead ?z"
    "uartRxState s' = uartRxState ?z" "rxTick s' = rxTick ?z" "rxBit s' = rxBit ?z"
    "readBit s' = readBit ?z" "uartRxBuffer s' = uartRxBuffer ?z"
    "uartRxWrite s' = uartRxWrite ?z \<or> uartRxState ?z = IDLE \<and> uartRxWrite s' = 0"
    "uartRxState ?z = IDLE \<and> 3 \<le> unat (uartRxWrite ?z) \<longrightarrow> uartRxWrite s' = 0"
    using matcher_rx [OF zl z(2)] by (elim exE conjE) (rule that)
  have zr: "uartRxState ?z = uartRxState r" "rxTick ?z = rxTick r" "rxBit ?z = rxBit r"
    "readBit ?z = readBit r" "uartRxBuffer ?z = uartRxBuffer r" "uartRxWrite ?z = uartRxWrite r"
    using z(1) by (simp_all add: rxView_def)
  have step: "ushioStep p s = Some s'"
    unfolding ushioStep_def a using y(1) m(1) by simp
  have w: "uartRxWrite s' = uartRxWrite r \<or> uartRxState r = IDLE \<and> uartRxWrite s' = 0"
    using m(9) zr by simp
  have full: "uartRxState r = IDLE \<and> 3 \<le> unat (uartRxWrite r) \<longrightarrow> uartRxWrite s' = 0"
    using m(10) zr by simp
  have w16: "unat (uartRxWrite s') < 16"
    using w rs(2) by auto
  have sane: "sane s'"
    unfolding sane_def using m(2) m(3) m(8) zr(5) rs(1) w16 z(3) by simp
  have f: "uartRxState s' = uartRxState r" "rxTick s' = rxTick r" "rxBit s' = rxBit r"
    "readBit s' = readBit r" "uartRxBuffer s' = uartRxBuffer r"
    using m(4-8) zr by simp_all
  show ?thesis
    by (intro exI [of _ s'] conjI) (rule step sane f w full)+
qed





















section \<open>The transmit framer inside the loop\<close>












section \<open>Round trip\<close>



section \<open>The parity bit\<close>

lemma foldl_xor_odd:
  "foldl (\<noteq>) c (map f xs) = (c \<noteq> odd (length (filter f xs)))"
  by (induction xs arbitrary: c) auto

lemma xorReduce_odd: "xorReduce v = odd (length (filter (bit v) [0..<8]))"
  using foldl_xor_odd [of False "bit v" "[0..<8]"] by (simp add: xorReduce_def)

lemma length_dataLevels: "length (dataLevels v 0) = 32"
  by (simp add: dataLevels_def length_concat comp_def sum_list_triv)

text \<open>
  Claim C6. For the byte \<open>v\<close> at the read cursor, the transmit framer drives the
  frame of \<open>v\<close> in the 44 ticks of the byte; the four ticks of the parity bit (ticks
  38 to 41, after the line at rest, the start bit and the eight data bits) carry the level
  \<open>xorReduce v\<close>, the fold of XOR over the eight data bits. This level is high
  exactly when \<open>v\<close> has an odd number of set bits, so the number of high bits among
  data and parity is even.
\<close>

theorem tx_parity_bit:
  assumes "uartTxState T = START" "txTick T \<le> 1" "txBit T = 1"
    "unat (uartTxRead T) < length (uartTxBuffer T)"
  shows "\<exists>ports T'. txRun 44 T = Some (ports, T') \<and>
    map txLevel ports = True # butlast (frame (uartTxBuffer T ! unat (uartTxRead T))) \<and>
    take 4 (drop 37 (map txLevel ports)) =
      replicate 4 (xorReduce (uartTxBuffer T ! unat (uartTxRead T))) \<and>
    xorReduce (uartTxBuffer T ! unat (uartTxRead T)) =
      odd (length (filter (bit (uartTxBuffer T ! unat (uartTxRead T))) [0..<8])) \<and>
    even (length (filter id (map (bit (uartTxBuffer T ! unat (uartTxRead T))) [0..<8] @
      [xorReduce (uartTxBuffer T ! unat (uartTxRead T))])))"
proof -
  let ?v = "uartTxBuffer T ! unat (uartTxRead T)"
  have tv: "txView T = (START, txTick T, 1, txParity T, writeBit T,
      uartTxBuffer T, uartTxRead T, uartTxWrite T)"
    using assms(1) assms(3) by (simp add: txView_def)
  obtain ports T' where a: "txRun 44 T = Some (ports, T')"
    "map txLevel ports = True # butlast (frame ?v)"
    using tx_frame [OF tv assms(2) assms(4)] by (elim exE conjE) (rule that)
  have c3: "take 4 (drop 37 (map txLevel ports)) = replicate 4 (xorReduce ?v)"
    unfolding a(2) butlast_frame
    using length_dataLevels [of ?v] by (simp add: numeral_eq_Suc)
  have c4: "xorReduce ?v = odd (length (filter (bit ?v) [0..<8]))"
    by (rule xorReduce_odd)
  have "length (filter id (map (bit ?v) [0..<8] @ [xorReduce ?v])) =
      length (filter (bit ?v) [0..<8]) + (if xorReduce ?v then 1 else 0)"
    by (simp add: filter_map comp_def)
  then have c5: "even (length (filter id (map (bit ?v) [0..<8] @ [xorReduce ?v])))"
    using c4 by simp
  show ?thesis
    by (intro exI [of _ ports] exI [of _ T'] conjI) (rule a(1) a(2) c3 c4 c5)+
qed

text \<open>
  The byte 51 has three set bits: its parity bit is high.
\<close>

theorem tx_parity_bit_witness:
  "\<exists>ports T'.
     txRun 44 (ushioInit\<lparr>uartTxState := START, uartTxWrite := 3\<rparr>) = Some (ports, T') \<and>
     take 4 (drop 37 (map txLevel ports)) = replicate 4 True"
proof -
  have "\<exists>ports T'. txRun 44 (ushioInit\<lparr>uartTxState := START, uartTxWrite := 3\<rparr>) = Some (ports, T') \<and>
    map txLevel ports = True # butlast (frame (uartTxBuffer (ushioInit\<lparr>uartTxState := START, uartTxWrite := 3\<rparr>) !
      unat (uartTxRead (ushioInit\<lparr>uartTxState := START, uartTxWrite := 3\<rparr>)))) \<and>
    take 4 (drop 37 (map txLevel ports)) =
      replicate 4 (xorReduce (uartTxBuffer (ushioInit\<lparr>uartTxState := START, uartTxWrite := 3\<rparr>) !
        unat (uartTxRead (ushioInit\<lparr>uartTxState := START, uartTxWrite := 3\<rparr>)))) \<and>
    xorReduce (uartTxBuffer (ushioInit\<lparr>uartTxState := START, uartTxWrite := 3\<rparr>) !
        unat (uartTxRead (ushioInit\<lparr>uartTxState := START, uartTxWrite := 3\<rparr>))) =
      odd (length (filter (bit (uartTxBuffer (ushioInit\<lparr>uartTxState := START, uartTxWrite := 3\<rparr>) !
        unat (uartTxRead (ushioInit\<lparr>uartTxState := START, uartTxWrite := 3\<rparr>)))) [0..<8])) \<and>
    even (length (filter id (map (bit (uartTxBuffer (ushioInit\<lparr>uartTxState := START, uartTxWrite := 3\<rparr>) !
        unat (uartTxRead (ushioInit\<lparr>uartTxState := START, uartTxWrite := 3\<rparr>)))) [0..<8] @
      [xorReduce (uartTxBuffer (ushioInit\<lparr>uartTxState := START, uartTxWrite := 3\<rparr>) !
        unat (uartTxRead (ushioInit\<lparr>uartTxState := START, uartTxWrite := 3\<rparr>)))])))"
    by (rule tx_parity_bit) (simp_all add: ushioInit_def)
  then obtain ports T' where
    "txRun 44 (ushioInit\<lparr>uartTxState := START, uartTxWrite := 3\<rparr>) = Some (ports, T')"
    "take 4 (drop 37 (map txLevel ports)) =
      replicate 4 (xorReduce (uartTxBuffer (ushioInit\<lparr>uartTxState := START, uartTxWrite := 3\<rparr>) !
        unat (uartTxRead (ushioInit\<lparr>uartTxState := START, uartTxWrite := 3\<rparr>))))"
    by (elim exE conjE) (rule that)
  moreover have "xorReduce (uartTxBuffer (ushioInit\<lparr>uartTxState := START, uartTxWrite := 3\<rparr>) !
        unat (uartTxRead (ushioInit\<lparr>uartTxState := START, uartTxWrite := 3\<rparr>))) = True"
    by (simp add: ushioInit_def xorReduce_def upt_rec)
  ultimately have "txRun 44 (ushioInit\<lparr>uartTxState := START, uartTxWrite := 3\<rparr>) = Some (ports, T') \<and>
     take 4 (drop 37 (map txLevel ports)) = replicate 4 True"
    by simp
  then show ?thesis by (intro exI)
qed

section \<open>The cursor of the receive queue\<close>

text \<open>
  The commit of a byte (line 196) tests nothing: in the receive half of the loop, for
  every position of the write cursor within the buffer and whatever is stored there, a
  received frame stores its byte in the slot under the cursor and advances the cursor by
  one modulo 16.
\<close>

lemma rx_commit_wraps:
  assumes "uartRxState R = IDLE" "rxTick R = 0" "rxBit R = 1"
    "unat (uartRxWrite R) < length (uartRxBuffer R)"
  shows "\<exists>R'. rxRun (map pinLevel (frame v)) R = Some R' \<and>
    uartRxBuffer R' = (uartRxBuffer R)[unat (uartRxWrite R) := v] \<and>
    uartRxWrite R' = (uartRxWrite R + 1) AND UARTRXMASK \<and>
    uartRxState R' = IDLE \<and> rxTick R' = 0 \<and> rxBit R' = 1"
proof -
  have rv: "rxView R = (IDLE, 0, 1, readBit R, uartRxBuffer R, uartRxWrite R)"
    using assms(1-3) by (simp add: rxView_def)
  obtain R' where a: "rxRun (map pinLevel (frame v)) R = Some R'"
    "rxView R' =
      (IDLE, 0, 1, 0, (uartRxBuffer R)[unat (uartRxWrite R) := v],
       (uartRxWrite R + 1) AND UARTRXMASK)"
    using rx_frame_full [OF rv assms(4), where v = v] by (elim exE conjE) (rule that)
  show ?thesis
    using a by (intro exI [of _ R']) (simp add: rxView_def)
qed

text \<open>
  In the whole loop the cursor stays far from the end of the buffer: the matcher clears the
  queue as soon as it holds three bytes.
\<close>

lemma rxFramer_total:
  assumes "unat (uartRxWrite x) < length (uartRxBuffer x)"
  shows "\<exists>r. rxFramer x = Some r"
  using assms by (simp add: rxFramer_def Let_def arrayRead_def arrayWrite_def)

lemma rxFramer_cursor:
  assumes "rxFramer x = Some r" "unat (uartRxWrite x) \<le> 3"
    "uartRxState x \<noteq> PARITY \<and> uartRxState x \<noteq> STOP \<longrightarrow> unat (uartRxWrite x) \<le> 2"
  shows "unat (uartRxWrite r) \<le> 3 \<and>
    (uartRxState r = START \<or> uartRxState r = DATA \<longrightarrow> unat (uartRxWrite r) \<le> 2)"
proof -
  have nx: "unat ((uartRxWrite x + 1) AND 0x0F) = unat (uartRxWrite x) + 1"
    using cursor_next [of "uartRxWrite x"] assms(2) by simp
  show ?thesis
    using assms nx
    by (auto simp: rxFramer_def Let_def arrayRead_def arrayWrite_def UARTRXMASK_def
        split: if_splits)
qed

text \<open>The cursor of the receive queue after an iteration of the loop.\<close>

lemma ushioStep_cursor:
  assumes "sane s" "unat (uartRxWrite s) \<le> 3"
    "uartRxState s \<noteq> PARITY \<and> uartRxState s \<noteq> STOP \<longrightarrow> unat (uartRxWrite s) \<le> 2"
  shows "\<exists>s'. ushioStep p s = Some s' \<and> sane s' \<and> unat (uartRxWrite s') \<le> 3 \<and>
    (uartRxState s' \<noteq> PARITY \<and> uartRxState s' \<noteq> STOP \<longrightarrow> unat (uartRxWrite s') \<le> 2)"
proof -
  let ?x = "timeoutTimer (rxTimer (sample p s))"
  have xs: "uartRxBuffer ?x = uartRxBuffer s" "uartRxWrite ?x = uartRxWrite s"
    "uartRxState ?x = uartRxState s"
    by (simp_all add: timeoutTimer_def rxTimer_def sample_def)
  have "unat (uartRxWrite ?x) < length (uartRxBuffer ?x)"
    using assms(1) xs by (simp add: sane_def)
  then obtain r where r: "rxFramer ?x = Some r"
    using rxFramer_total by blast
  have step: "rxStep p s = Some r" using r by (simp add: rxStep_def)
  have c: "unat (uartRxWrite r) \<le> 3"
    "uartRxState r = START \<or> uartRxState r = DATA \<longrightarrow> unat (uartRxWrite r) \<le> 2"
    using rxFramer_cursor [OF r] assms(2) assms(3) xs by simp_all
  obtain s' where s': "ushioStep p s = Some s'" "sane s'"
    "uartRxState s' = uartRxState r"
    "uartRxWrite s' = uartRxWrite r \<or> uartRxState r = IDLE \<and> uartRxWrite s' = 0"
    "uartRxState r = IDLE \<and> 3 \<le> unat (uartRxWrite r) \<longrightarrow> uartRxWrite s' = 0"
    using ushioStep_rx [OF assms(1) step] by (elim exE conjE) (rule that)
  have b3: "unat (uartRxWrite s') \<le> 3" using s'(4) c(1) by auto
  have b2: "unat (uartRxWrite s') \<le> 2" if "uartRxState s' \<noteq> PARITY \<and> uartRxState s' \<noteq> STOP"
  proof (cases "uartRxState r = IDLE")
    case True
    show ?thesis
    proof (cases "3 \<le> unat (uartRxWrite r)")
      case True
      then have "uartRxWrite s' = 0" using s'(5) \<open>uartRxState r = IDLE\<close> by simp
      then show ?thesis by simp
    next
      case False
      then show ?thesis using s'(4) by auto
    qed
  next
    case False
    then have "uartRxState r = START \<or> uartRxState r = DATA"
      using that s'(3) by (cases "uartRxState r") simp_all
    then show ?thesis using c(2) s'(4) False by auto
  qed
  have b2': "uartRxState s' \<noteq> PARITY \<and> uartRxState s' \<noteq> STOP \<longrightarrow> unat (uartRxWrite s') \<le> 2"
    using b2 by blast
  show ?thesis
    by (intro exI [of _ s'] conjI) (rule s'(1) s'(2) b3 b2')+
qed

lemma ushioRun_cursor:
  assumes "sane s" "unat (uartRxWrite s) \<le> 3"
    "uartRxState s \<noteq> PARITY \<and> uartRxState s \<noteq> STOP \<longrightarrow> unat (uartRxWrite s) \<le> 2"
  shows "\<exists>s'. ushioRun ps s = Some s' \<and> sane s' \<and> unat (uartRxWrite s') \<le> 3 \<and>
    (uartRxState s' \<noteq> PARITY \<and> uartRxState s' \<noteq> STOP \<longrightarrow> unat (uartRxWrite s') \<le> 2)"
  using assms
proof (induction ps arbitrary: s)
  case Nil
  have "ushioRun [] s = Some s" by simp
  then show ?case
    by (intro exI [of _ s] conjI) (rule Nil.prems | assumption)+
next
  case (Cons p ps)
  obtain s1 where s1: "ushioStep p s = Some s1" "sane s1" "unat (uartRxWrite s1) \<le> 3"
    "uartRxState s1 \<noteq> PARITY \<and> uartRxState s1 \<noteq> STOP \<longrightarrow> unat (uartRxWrite s1) \<le> 2"
    using ushioStep_cursor [OF Cons.prems, of p] by (elim exE conjE) (rule that)
  obtain s' where s': "ushioRun ps s1 = Some s'" "sane s'" "unat (uartRxWrite s') \<le> 3"
    "uartRxState s' \<noteq> PARITY \<and> uartRxState s' \<noteq> STOP \<longrightarrow> unat (uartRxWrite s') \<le> 2"
    using Cons.IH [OF s1(2-4)] by (elim exE conjE) (rule that)
  have "ushioRun (p # ps) s = Some s'" using s1(1) s'(1) by simp
  then show ?case
    by (intro exI [of _ s'] conjI) (rule s'(2-4) | assumption)+
qed

text \<open>From power-on, whatever arrives on the pins, the loop never fails and the receive
  queue never holds more than three bytes.\<close>

lemma rx_queue_bounded:
  "\<exists>s. ushioRun ps ushioInit = Some s \<and> unat (uartRxWrite s) \<le> 3 \<and> length (rxQueue s) \<le> 3"
proof -
  have i: "sane ushioInit" "unat (uartRxWrite ushioInit) \<le> 3"
    "uartRxState ushioInit \<noteq> PARITY \<and> uartRxState ushioInit \<noteq> STOP \<longrightarrow>
       unat (uartRxWrite ushioInit) \<le> 2"
    by (simp_all add: sane_def ushioInit_def)
  obtain s where s: "ushioRun ps ushioInit = Some s" "unat (uartRxWrite s) \<le> 3"
    using ushioRun_cursor [OF i, of ps] by (elim exE conjE) (rule that)
  have "length (rxQueue s) \<le> 3" using s(2) by (simp add: rxQueue_def)
  then show ?thesis using s by blast
qed

section \<open>Power-on\<close>

lemma quiet_step:
  assumes "quiet s" "rxLevel p"
  shows "\<exists>s'. ushioStep p s = Some s' \<and> quiet s' \<and> txLevel (PORTB s')"
proof -
  have tx: "TXPIN \<noteq> 0" "(x OR TXPIN) AND TXPIN = TXPIN" for x
    by (simp_all add: TXPIN_def word_ao_absorbs)
  show ?thesis
    using assms tx
    by (simp add: quiet_def ushioStep_def sample_def drive_def timers_def rxTimer_def
        txTimer_def timeoutTimer_def rxFramer_def txFramer_def txSchedule_def matcher_def
        matcherOn_def rxLevel_def txLevel_def Let_def)
qed

lemma quiet_run:
  "quiet s \<Longrightarrow> \<forall>p\<in>set ps. rxLevel p \<Longrightarrow>
   \<exists>s'. ushioRun ps s = Some s' \<and> quiet s' \<and> (ps \<noteq> [] \<longrightarrow> txLevel (PORTB s'))"
proof (induction ps arbitrary: s)
  case Nil
  then show ?case by simp
next
  case (Cons p ps)
  obtain s1 where s1: "ushioStep p s = Some s1" "quiet s1" "txLevel (PORTB s1)"
    using quiet_step [of s p] Cons.prems by auto
  obtain s' where s': "ushioRun ps s1 = Some s'" "quiet s'" "ps \<noteq> [] \<longrightarrow> txLevel (PORTB s')"
    using Cons.IH [OF s1(2)] Cons.prems(2) by auto
  have "ushioRun (p # ps) s = Some s'" using s1(1) s'(1) by simp
  moreover have "txLevel (PORTB s')"
  proof (cases "ps = []")
    case True
    then have "s' = s1" using s'(1) by simp
    then show ?thesis using s1(3) by simp
  next
    case False
    then show ?thesis using s'(3) by simp
  qed
  ultimately show ?case using s'(2) by auto
qed

text \<open>
  Claim C2 does not hold of the code. The initialiser of \<^verbatim>\<open>uartTxBuffer\<close> holds
  51 32 0D, but \<^verbatim>\<open>uartTxWrite\<close> starts at 0: no byte is pending at power-on, and
  as long as the RX line stays high the transmit framer stays IDLE with both cursors at
  zero and the TX line high, for any number of ticks. The three bytes are never
  serialized.
\<close>

theorem power_on_preload_never_sent:
  assumes "\<forall>p\<in>set ps. rxLevel p"
  shows "txPending ushioInit = [] \<and>
    (\<exists>s. ushioRun ps ushioInit = Some s \<and> quiet s \<and> (ps \<noteq> [] \<longrightarrow> txLevel (PORTB s)))"
proof
  show "txPending ushioInit = []" by (simp add: txPending_def ushioInit_def)
  have "quiet ushioInit" by (simp add: quiet_def ushioInit_def)
  then show "\<exists>s. ushioRun ps ushioInit = Some s \<and> quiet s \<and> (ps \<noteq> [] \<longrightarrow> txLevel (PORTB s))"
    using assms by (rule quiet_run)
qed

text \<open>
  Five ticks with all input pins high.
\<close>

theorem power_on_preload_never_sent_witness:
  "\<exists>s. ushioRun [0x1F, 0x1F, 0x1F, 0x1F, 0x1F] ushioInit = Some s \<and>
     uartTxState s = IDLE \<and> txBit s = 1 \<and> uartTxWrite s = 0 \<and> txLevel (PORTB s)"
  using power_on_preload_never_sent [of "[0x1F, 0x1F, 0x1F, 0x1F, 0x1F]"]
  by (auto simp: rxLevel_def RXPIN_def quiet_def)

end
